theory Spec2Isabelle
  imports Main "HOL-Library.Word" "HOL-Library.AList" "HOL-Library.Monad_Syntax"
begin

section \<open>Data model of meta-wayland-transaction.c\<close>

text \<open>
  Pointers are addresses (natural numbers); a pointer that may be NULL is an option.
  A \<^verbatim>\<open>MetaWaylandSurface *\<close> is a \<open>surface\<close>, a \<^verbatim>\<open>MetaWaylandTransaction *\<close> a \<open>tref\<close>.
  Functions that dereference a pointer return \<open>None\<close> when the pointer is NULL or
  dangling (the C program has no defined behaviour there), and also when a loop does not
  terminate: \<open>None\<close> reads "the call does not return normally".
\<close>

type_synonym surface = nat
type_synonym tref = nat

text \<open>
  \<^verbatim>\<open>MetaWaylandSubsurfacePlacementOp\<close> and \<^verbatim>\<open>MetaWaylandSurfaceState\<close> are declared in
  headers outside this file; the transaction code reads only the list
  \<^verbatim>\<open>subsurface_placement_ops\<close> and the two surface pointers of each operation. The rest of
  a pending state is opaque and kept as \<open>state_payload\<close>.
\<close>

record placement_op =
  op_surface :: "surface option"
  op_sibling :: "surface option"

record surface_state =
  subsurface_placement_ops :: "placement_op list"
  state_payload :: "nat list"

text \<open>\<^verbatim>\<open>struct _MetaWaylandTransactionEntry\<close>; \<^verbatim>\<open>g_new0\<close> gives \<open>entry0\<close>.\<close>

record transaction_entry =
  entry_state :: "surface_state option"
  has_sub_pos :: bool
  entry_x :: int
  entry_y :: int

definition entry0 :: transaction_entry where
  "entry0 = \<lparr>entry_state = None, has_sub_pos = False, entry_x = 0, entry_y = 0\<rparr>"

text \<open>
  The field \<^verbatim>\<open>next_candidate\<close> holds NULL (not on the candidate chain), the sentinel
  \<^verbatim>\<open>META_WAYLAND_TRANSACTION_NONE\<close> (last of the chain) or a transaction.
\<close>

datatype candidate = Null | TRANSACTION_NONE | Ptr tref

text \<open>
  \<^verbatim>\<open>struct _MetaWaylandTransaction\<close>. \<open>node_data\<close> says whether \<^verbatim>\<open>node.data\<close> is set
  (commit stores the transaction itself there); \<open>entries\<close> is the hash table, as an
  association list whose order is the iteration order of the table.
\<close>

record transaction =
  node_data :: bool
  next_candidate :: candidate
  committed_sequence :: "64 word"
  entries :: "(surface \<times> transaction_entry) list"

text \<open>The fields of \<^verbatim>\<open>MetaWaylandSurface\<close> that the transaction code reads or writes.\<close>

record surface_rec =
  sub_parent :: "surface option"
  sub_x :: int
  sub_y :: int
  first_committed :: "tref option"
  last_committed :: "tref option"
  pending_state :: surface_state

text \<open>
  What the code does to its collaborators, newest event first. \<open>EvApplyState\<close> and
  \<open>EvSyncChildStates\<close> are the calls of \<^verbatim>\<open>meta_wayland_surface_apply_state\<close> and
  \<^verbatim>\<open>meta_wayland_transaction_sync_child_states\<close>; \<open>EvSubPos\<close> is the write of a position
  override to the surface; \<open>EvCommit\<close> and \<open>EvApply\<close> mark the entry of
  \<^verbatim>\<open>meta_wayland_transaction_commit\<close> (with the surfaces of the transaction) and of
  \<^verbatim>\<open>meta_wayland_transaction_apply\<close>.
\<close>

datatype event =
    EvCommit tref "surface list"
  | EvApply tref
  | EvSubPos surface int int
  | EvApplyState surface surface_state
  | EvSyncChildStates surface

text \<open>
  The compositor: the surfaces, the result of the external top-level lookup
  \<^verbatim>\<open>meta_wayland_surface_get_toplevel\<close> for each surface, the live transactions, the
  committed queue (the transactions whose \<^verbatim>\<open>node\<close> is linked, head first), the static
  counter of \<^verbatim>\<open>meta_wayland_transaction_commit\<close> and the event log.
\<close>

record world =
  surfaces :: "surface \<Rightarrow> surface_rec"
  toplevel :: "surface \<Rightarrow> surface option"
  heap :: "tref \<Rightarrow> transaction option"
  committed_queue :: "tref list"
  sequence_counter :: "64 word"
  trace :: "event list"

text \<open>
  The operations on a pending state that the surrounding system provides:
  \<^verbatim>\<open>meta_wayland_surface_state_merge_into (from, to)\<close> (the new value of \<open>to\<close>; \<open>from\<close> is
  passed as the code passes it, NULL included), \<^verbatim>\<open>meta_wayland_surface_state_new\<close> and
  \<^verbatim>\<open>meta_wayland_surface_state_reset\<close>.
\<close>

record state_ops =
  state_merge_into :: "surface_state option \<Rightarrow> surface_state \<Rightarrow> surface_state"
  state_new :: surface_state
  state_reset :: "surface_state \<Rightarrow> surface_state"

section \<open>Entries of a transaction\<close>

definition meta_wayland_transaction_get_entry ::
  "(surface \<times> transaction_entry) list \<Rightarrow> surface \<Rightarrow> transaction_entry option" where
  "meta_wayland_transaction_get_entry es s = map_of es s"

text \<open>
  \<^verbatim>\<open>meta_wayland_transaction_ensure_entry\<close>: the table after the call and the entry it
  returns.
\<close>

definition meta_wayland_transaction_ensure_entry ::
  "(surface \<times> transaction_entry) list \<Rightarrow> surface
    \<Rightarrow> (surface \<times> transaction_entry) list \<times> transaction_entry" where
  "meta_wayland_transaction_ensure_entry es s =
     (case meta_wayland_transaction_get_entry es s of
        Some e \<Rightarrow> (es, e)
      | None \<Rightarrow> (AList.update s entry0 es, entry0))"

text \<open>One round of the loop of \<^verbatim>\<open>meta_wayland_transaction_add_placement_surfaces\<close>.\<close>

definition add_placement_op ::
  "placement_op \<Rightarrow> (surface \<times> transaction_entry) list \<Rightarrow> (surface \<times> transaction_entry) list" where
  "add_placement_op op es =
     (let es1 = (case op_surface op of
                   Some s \<Rightarrow> fst (meta_wayland_transaction_ensure_entry es s)
                 | None \<Rightarrow> es)
      in (case op_sibling op of
            Some s \<Rightarrow> fst (meta_wayland_transaction_ensure_entry es1 s)
          | None \<Rightarrow> es1))"

definition meta_wayland_transaction_add_placement_surfaces ::
  "(surface \<times> transaction_entry) list \<Rightarrow> surface \<Rightarrow> surface_state
    \<Rightarrow> (surface \<times> transaction_entry) list" where
  "meta_wayland_transaction_add_placement_surfaces es surface st =
     fold add_placement_op (subsurface_placement_ops st) es"

definition meta_wayland_transaction_add_entry ::
  "(surface \<times> transaction_entry) list \<Rightarrow> surface \<Rightarrow> transaction_entry
    \<Rightarrow> (surface \<times> transaction_entry) list" where
  "meta_wayland_transaction_add_entry es surface entry =
     (let es1 = AList.update surface entry es
      in (case entry_state entry of
            Some st \<Rightarrow> meta_wayland_transaction_add_placement_surfaces es1 surface st
          | None \<Rightarrow> es1))"

text \<open>
  \<^verbatim>\<open>meta_wayland_transaction_entry_merge_into\<close>: the entries \<open>from\<close> and \<open>to\<close> after the
  call.
\<close>

definition meta_wayland_transaction_entry_merge_into ::
  "state_ops \<Rightarrow> transaction_entry \<Rightarrow> transaction_entry \<Rightarrow> transaction_entry \<times> transaction_entry" where
  "meta_wayland_transaction_entry_merge_into X from to =
     (let to1 = (if has_sub_pos from
                 then to\<lparr>entry_x := entry_x from, entry_y := entry_y from, has_sub_pos := True\<rparr>
                 else to)
      in (case entry_state to1 of
            Some ts \<Rightarrow>
              (from\<lparr>entry_state := None\<rparr>,
               to1\<lparr>entry_state := Some (state_merge_into X (entry_state from) ts)\<rparr>)
          | None \<Rightarrow>
              (from\<lparr>entry_state := None\<rparr>, to1\<lparr>entry_state := entry_state from\<rparr>)))"

text \<open>
  One round of the loop of \<^verbatim>\<open>meta_wayland_transaction_merge_into\<close> on the table of \<open>to\<close>,
  for the pair \<open>(surface, from_entry)\<close> of the table of \<open>from\<close>. The entry \<open>to_entry\<close> is
  looked up before the placement surfaces are added and written through afterwards.
\<close>

definition merge_into_step ::
  "state_ops \<Rightarrow> surface \<times> transaction_entry \<Rightarrow> (surface \<times> transaction_entry) list
    \<Rightarrow> (surface \<times> transaction_entry) list" where
  "merge_into_step X p tes =
     (case p of (surface, from_entry) \<Rightarrow>
        (case meta_wayland_transaction_get_entry tes surface of
           None \<Rightarrow> meta_wayland_transaction_add_entry tes surface from_entry
         | Some to_entry \<Rightarrow>
             (let tes1 = (case entry_state from_entry of
                            Some st \<Rightarrow> meta_wayland_transaction_add_placement_surfaces tes surface st
                          | None \<Rightarrow> tes)
              in AList.update surface
                   (snd (meta_wayland_transaction_entry_merge_into X from_entry to_entry)) tes1)))"

definition merge_entries ::
  "state_ops \<Rightarrow> (surface \<times> transaction_entry) list \<Rightarrow> (surface \<times> transaction_entry) list
    \<Rightarrow> (surface \<times> transaction_entry) list" where
  "merge_entries X fes tes = fold (merge_into_step X) fes tes"

section \<open>Creating, destroying and building transactions\<close>

text \<open>
  \<^verbatim>\<open>meta_wayland_transaction_new\<close>; \<open>t\<close> is the address the allocator returns, which
  holds no live transaction.
\<close>

definition transaction0 :: transaction where
  "transaction0 = \<lparr>node_data = False, next_candidate = Null, committed_sequence = 0, entries = []\<rparr>"

definition meta_wayland_transaction_new :: "world \<Rightarrow> tref \<Rightarrow> world option" where
  "meta_wayland_transaction_new w t =
     (if heap w t = None then Some (w\<lparr>heap := (heap w)(t \<mapsto> transaction0)\<rparr>) else None)"

text \<open>
  \<^verbatim>\<open>meta_wayland_transaction_free\<close>: \<^verbatim>\<open>g_queue_unlink\<close> takes the node out of the queue
  (nothing happens to the list when the node is not linked).
\<close>

definition meta_wayland_transaction_free :: "world \<Rightarrow> tref \<Rightarrow> world option" where
  "meta_wayland_transaction_free w t =
     (case heap w t of
        None \<Rightarrow> None
      | Some tx \<Rightarrow>
          Some (w\<lparr>committed_queue :=
                    (if node_data tx then remove1 t (committed_queue w) else committed_queue w),
                  heap := (heap w)(t := None)\<rparr>))"

definition meta_wayland_transaction_add_subsurface_position ::
  "world \<Rightarrow> tref \<Rightarrow> surface \<Rightarrow> int \<Rightarrow> int \<Rightarrow> world option" where
  "meta_wayland_transaction_add_subsurface_position w t s x y =
     (case heap w t of
        None \<Rightarrow> None
      | Some tx \<Rightarrow>
          (case meta_wayland_transaction_ensure_entry (entries tx) s of (es, entry) \<Rightarrow>
             Some (w\<lparr>heap := (heap w)(t \<mapsto> tx\<lparr>entries :=
                      AList.update s (entry\<lparr>entry_x := x, entry_y := y, has_sub_pos := True\<rparr>) es\<rparr>)\<rparr>)))"

definition meta_wayland_transaction_merge_pending_state ::
  "state_ops \<Rightarrow> world \<Rightarrow> tref \<Rightarrow> surface \<Rightarrow> world option" where
  "meta_wayland_transaction_merge_pending_state X w t s =
     (case heap w t of
        None \<Rightarrow> None
      | Some tx \<Rightarrow>
          (let pending = pending_state (surfaces w s)
           in (case meta_wayland_transaction_ensure_entry (entries tx) s of (es, entry) \<Rightarrow>
                 (case entry_state entry of
                    None \<Rightarrow>
                      Some (w\<lparr>heap := (heap w)(t \<mapsto> tx\<lparr>entries :=
                                  AList.update s (entry\<lparr>entry_state := Some pending\<rparr>) es\<rparr>),
                              surfaces := (surfaces w)
                                  (s := (surfaces w s)\<lparr>pending_state := state_new X\<rparr>)\<rparr>)
                  | Some st \<Rightarrow>
                      Some (w\<lparr>heap := (heap w)(t \<mapsto> tx\<lparr>entries :=
                                  AList.update s
                                    (entry\<lparr>entry_state := Some (state_merge_into X (Some pending) st)\<rparr>)
                                    es\<rparr>),
                              surfaces := (surfaces w)
                                  (s := (surfaces w s)\<lparr>pending_state := state_reset X pending\<rparr>)\<rparr>)))))"

text \<open>
  \<^verbatim>\<open>meta_wayland_transaction_merge_into\<close>: the loop empties the table of \<open>from\<close> into the
  table of \<open>to\<close>, then \<open>from\<close> is freed.
\<close>

definition meta_wayland_transaction_merge_into ::
  "state_ops \<Rightarrow> world \<Rightarrow> tref \<Rightarrow> tref \<Rightarrow> world option" where
  "meta_wayland_transaction_merge_into X w from to =
     (case heap w from of
        None \<Rightarrow> None
      | Some ftx \<Rightarrow>
          (case heap w to of
             None \<Rightarrow> None
           | Some ttx \<Rightarrow>
               meta_wayland_transaction_free
                 (w\<lparr>heap := (heap w)(to \<mapsto> ttx\<lparr>entries := merge_entries X (entries ftx) (entries ttx)\<rparr>)\<rparr>)
                 from))"



section \<open>Ordering the surfaces of a transaction\<close>

text \<open>
  The loop of \<^verbatim>\<open>is_ancestor\<close>, from the value of the loop variable \<open>ancestor\<close>; the walk
  up the parent pointers need not end when they form a cycle.
\<close>

partial_function (option) is_ancestor_loop ::
  "(surface \<Rightarrow> surface_rec) \<Rightarrow> surface \<Rightarrow> surface option \<Rightarrow> bool option" where
  "is_ancestor_loop sf candidate ancestor =
     (case ancestor of
        None \<Rightarrow> Some False
      | Some a \<Rightarrow>
          if a = candidate then Some True
          else is_ancestor_loop sf candidate (sub_parent (sf a)))"

declare is_ancestor_loop.simps [code]

definition is_ancestor :: "(surface \<Rightarrow> surface_rec) \<Rightarrow> surface \<Rightarrow> surface \<Rightarrow> bool option" where
  "is_ancestor sf candidate reference = is_ancestor_loop sf candidate (sub_parent (sf reference))"

text \<open>The value of a pointer as the comparison \<^verbatim>\<open><\<close> of C sees it; NULL is the least.\<close>

fun pointer_value :: "surface option \<Rightarrow> nat" where
  "pointer_value None = 0"
| "pointer_value (Some a) = Suc a"

definition meta_wayland_transaction_compare :: "world \<Rightarrow> surface \<Rightarrow> surface \<Rightarrow> int option" where
  "meta_wayland_transaction_compare w surface1 surface2 =
     (if sub_parent (surfaces w surface1) = sub_parent (surfaces w surface2) then Some 0
      else do {
        a1 \<leftarrow> is_ancestor (surfaces w) surface1 surface2;
        if a1 then Some 1
        else do {
          a2 \<leftarrow> is_ancestor (surfaces w) surface2 surface1;
          if a2 then Some (- 1)
          else Some (if pointer_value (toplevel w surface1) < pointer_value (toplevel w surface2)
                     then - 1 else 1)
        }
      })"

text \<open>
  \<^verbatim>\<open>qsort\<close> of the C library, whose algorithm the standard leaves open, as insertion sort:
  an element goes before the first element it does not compare greater than.
\<close>

fun qsort_insert :: "('a \<Rightarrow> 'a \<Rightarrow> int option) \<Rightarrow> 'a \<Rightarrow> 'a list \<Rightarrow> 'a list option" where
  "qsort_insert cmp a [] = Some [a]"
| "qsort_insert cmp a (b # bs) =
     (case cmp a b of
        None \<Rightarrow> None
      | Some r \<Rightarrow> if r \<le> 0 then Some (a # b # bs) else map_option ((#) b) (qsort_insert cmp a bs))"

fun qsort :: "('a \<Rightarrow> 'a \<Rightarrow> int option) \<Rightarrow> 'a list \<Rightarrow> 'a list option" where
  "qsort cmp [] = Some []"
| "qsort cmp (a # as) = (case qsort cmp as of None \<Rightarrow> None | Some bs \<Rightarrow> qsort_insert cmp a bs)"

section \<open>The candidate chain\<close>

text \<open>
  The loop of \<^verbatim>\<open>find_next_transaction_for_surface\<close> over the nodes after the node of the
  transaction; the outer \<open>None\<close> is the read of a freed transaction.
\<close>

fun find_next :: "world \<Rightarrow> surface \<Rightarrow> tref list \<Rightarrow> tref option option" where
  "find_next w surface [] = Some None"
| "find_next w surface (n # ns) =
     (if last_committed (surfaces w surface) = Some n then Some (Some n)
      else (case heap w n of
              None \<Rightarrow> None
            | Some nx \<Rightarrow>
                if map_of (entries nx) surface \<noteq> None then Some (Some n)
                else find_next w surface ns))"

definition find_next_transaction_for_surface :: "world \<Rightarrow> tref \<Rightarrow> surface \<Rightarrow> tref option option" where
  "find_next_transaction_for_surface w t surface =
     find_next w surface (tl (dropWhile (\<lambda>n. n \<noteq> t) (committed_queue w)))"

text \<open>
  The variable \<open>candidate\<close> of \<^verbatim>\<open>ensure_next_candidate\<close> points to the caller's
  \<^verbatim>\<open>first_candidate\<close> or to the field \<^verbatim>\<open>next_candidate\<close> of a transaction.
\<close>

datatype slot = First_candidate | Next_candidate_of tref

definition read_slot :: "world \<Rightarrow> candidate \<Rightarrow> slot \<Rightarrow> candidate option" where
  "read_slot w fc sl =
     (case sl of
        First_candidate \<Rightarrow> Some fc
      | Next_candidate_of p \<Rightarrow> map_option next_candidate (heap w p))"

definition write_slot :: "world \<Rightarrow> candidate \<Rightarrow> slot \<Rightarrow> candidate \<Rightarrow> (world \<times> candidate) option" where
  "write_slot w fc sl v =
     (case sl of
        First_candidate \<Rightarrow> Some (w, v)
      | Next_candidate_of p \<Rightarrow>
          (case heap w p of
             None \<Rightarrow> None
           | Some px \<Rightarrow> Some (w\<lparr>heap := (heap w)(p \<mapsto> px\<lparr>next_candidate := v\<rparr>)\<rparr>, fc)))"

text \<open>The \<^verbatim>\<open>while\<close> loop of \<^verbatim>\<open>ensure_next_candidate\<close>: where \<open>candidate\<close> points at its end.\<close>

partial_function (option) ensure_next_candidate_loop ::
  "world \<Rightarrow> candidate \<Rightarrow> 64 word \<Rightarrow> slot \<Rightarrow> slot option" where
  "ensure_next_candidate_loop w fc sq sl =
     (case read_slot w fc sl of
        None \<Rightarrow> None
      | Some Null \<Rightarrow> None
      | Some TRANSACTION_NONE \<Rightarrow> Some sl
      | Some (Ptr p) \<Rightarrow>
          (case heap w p of
             None \<Rightarrow> None
           | Some px \<Rightarrow>
               if committed_sequence px < sq
               then ensure_next_candidate_loop w fc sq (Next_candidate_of p)
               else Some sl))"

declare ensure_next_candidate_loop.simps [code]

definition ensure_next_candidate :: "world \<Rightarrow> tref \<Rightarrow> candidate \<Rightarrow> (world \<times> candidate) option" where
  "ensure_next_candidate w t fc =
     (case heap w t of
        None \<Rightarrow> None
      | Some tx \<Rightarrow>
          if next_candidate tx \<noteq> Null then Some (w, fc)
          else do {
            sl \<leftarrow> ensure_next_candidate_loop w fc (committed_sequence tx) First_candidate;
            c \<leftarrow> read_slot w fc sl;
            write_slot (w\<lparr>heap := (heap w)(t \<mapsto> tx\<lparr>next_candidate := c\<rparr>)\<rparr>) fc sl (Ptr t)
          })"

section \<open>Applying a transaction\<close>

definition log :: "event \<Rightarrow> world \<Rightarrow> world" where
  "log e w = w\<lparr>trace := e # trace w\<rparr>"

definition meta_wayland_transaction_apply_subsurface_position ::
  "world \<Rightarrow> surface \<Rightarrow> transaction_entry \<Rightarrow> world" where
  "meta_wayland_transaction_apply_subsurface_position w surface entry =
     (if \<not> has_sub_pos entry then w
      else log (EvSubPos surface (entry_x entry) (entry_y entry))
             (w\<lparr>surfaces := (surfaces w)
                  (surface := (surfaces w surface)\<lparr>sub_x := entry_x entry, sub_y := entry_y entry\<rparr>)\<rparr>))"

text \<open>
  The body of the first loop of \<^verbatim>\<open>meta_wayland_transaction_apply\<close> for one surface of
  the sorted array: the world, \<^verbatim>\<open>first_candidate\<close> and the array \<open>states\<close> filled so far.
\<close>

definition apply_surface ::
  "tref \<Rightarrow> surface \<Rightarrow> world \<times> candidate \<times> surface_state option list
    \<Rightarrow> (world \<times> candidate \<times> surface_state option list) option" where
  "apply_surface t surface acc =
     (case acc of (w, fc, states) \<Rightarrow>
        (case heap w t of
           None \<Rightarrow> None
         | Some tx \<Rightarrow>
             (case meta_wayland_transaction_get_entry (entries tx) surface of
                None \<Rightarrow> None
              | Some entry \<Rightarrow>
                  (let w1 = meta_wayland_transaction_apply_subsurface_position w surface entry;
                       w2 = (case entry_state entry of
                               Some st \<Rightarrow> log (EvApplyState surface st) w1
                             | None \<Rightarrow> w1);
                       states' = states @ [entry_state entry]
                   in if last_committed (surfaces w2 surface) = Some t
                      then Some (w2\<lparr>surfaces := (surfaces w2)
                                   (surface := (surfaces w2 surface)
                                      \<lparr>first_committed := None, last_committed := None\<rparr>)\<rparr>,
                                 fc, states')
                      else (case find_next_transaction_for_surface w2 t surface of
                              None \<Rightarrow> None
                            | Some None \<Rightarrow> Some (w2, fc, states')
                            | Some (Some next_transaction) \<Rightarrow>
                                (case ensure_next_candidate
                                        (w2\<lparr>surfaces := (surfaces w2)
                                           (surface := (surfaces w2 surface)
                                              \<lparr>first_committed := Some next_transaction\<rparr>)\<rparr>)
                                        next_transaction fc of
                                   None \<Rightarrow> None
                                 | Some (w3, fc') \<Rightarrow> Some (w3, fc', states')))))))"

fun apply_surfaces ::
  "tref \<Rightarrow> surface list \<Rightarrow> world \<times> candidate \<times> surface_state option list
    \<Rightarrow> (world \<times> candidate \<times> surface_state option list) option" where
  "apply_surfaces t [] acc = Some acc"
| "apply_surfaces t (surface # rest) acc =
     (case apply_surface t surface acc of
        None \<Rightarrow> None
      | Some acc' \<Rightarrow> apply_surfaces t rest acc')"

text \<open>The second loop, from the last index down to the first.\<close>

definition sync_child_states :: "surface list \<Rightarrow> surface_state option list \<Rightarrow> world \<Rightarrow> world" where
  "sync_child_states surfs states w =
     fold (\<lambda>(surface, st) w. if st \<noteq> None then log (EvSyncChildStates surface) w else w)
          (rev (zip surfs states)) w"

definition meta_wayland_transaction_apply ::
  "world \<Rightarrow> tref \<Rightarrow> candidate \<Rightarrow> (world \<times> candidate) option" where
  "meta_wayland_transaction_apply w t fc =
     (case heap w t of
        None \<Rightarrow> None
      | Some tx \<Rightarrow>
          (let w0 = log (EvApply t) w
           in (case qsort (meta_wayland_transaction_compare w0) (map fst (entries tx)) of
                 None \<Rightarrow> None
               | Some surfs \<Rightarrow>
                   (case apply_surfaces t surfs (w0, fc, []) of
                      None \<Rightarrow> None
                    | Some (w1, fc1, states) \<Rightarrow>
                        (case meta_wayland_transaction_free (sync_child_states surfs states w1) t of
                           None \<Rightarrow> None
                         | Some w2 \<Rightarrow> Some (w2, fc1))))))"

definition has_unapplied_dependencies :: "world \<Rightarrow> tref \<Rightarrow> bool option" where
  "has_unapplied_dependencies w t =
     (case heap w t of
        None \<Rightarrow> None
      | Some tx \<Rightarrow>
          Some (list_ex (\<lambda>surface. first_committed (surfaces w surface) \<noteq> Some t)
                        (map fst (entries tx))))"

definition meta_wayland_transaction_maybe_apply_one ::
  "world \<Rightarrow> tref \<Rightarrow> candidate \<Rightarrow> (world \<times> candidate) option" where
  "meta_wayland_transaction_maybe_apply_one w t fc =
     (case has_unapplied_dependencies w t of
        None \<Rightarrow> None
      | Some True \<Rightarrow> Some (w, fc)
      | Some False \<Rightarrow> meta_wayland_transaction_apply w t fc)"

text \<open>
  One round of the loop of \<^verbatim>\<open>meta_wayland_transaction_maybe_apply\<close>: either the function
  returns (\<open>Inl\<close>) or the next round starts with the transaction taken off the chain.
\<close>

definition maybe_apply_round ::
  "world \<Rightarrow> tref \<Rightarrow> candidate \<Rightarrow> (world + world \<times> tref \<times> candidate) option" where
  "maybe_apply_round w t fc =
     (case meta_wayland_transaction_maybe_apply_one w t fc of
        None \<Rightarrow> None
      | Some (w1, fc1) \<Rightarrow>
          (case fc1 of
             TRANSACTION_NONE \<Rightarrow> Some (Inl w1)
           | Null \<Rightarrow> None
           | Ptr n \<Rightarrow>
               (case heap w1 n of
                  None \<Rightarrow> None
                | Some nx \<Rightarrow>
                    Some (Inr (w1\<lparr>heap := (heap w1)(n \<mapsto> nx\<lparr>next_candidate := Null\<rparr>)\<rparr>,
                               n, next_candidate nx)))))"

partial_function (option) maybe_apply_loop :: "world \<Rightarrow> tref \<Rightarrow> candidate \<Rightarrow> world option" where
  "maybe_apply_loop w t fc =
     (case maybe_apply_round w t fc of
        None \<Rightarrow> None
      | Some (Inl w') \<Rightarrow> Some w'
      | Some (Inr (w', t', fc')) \<Rightarrow> maybe_apply_loop w' t' fc')"

declare maybe_apply_loop.simps [code]

definition meta_wayland_transaction_maybe_apply :: "world \<Rightarrow> tref \<Rightarrow> world option" where
  "meta_wayland_transaction_maybe_apply w t = maybe_apply_loop w t TRANSACTION_NONE"

section \<open>Committing a transaction\<close>

text \<open>
  The body of the loop of \<^verbatim>\<open>meta_wayland_transaction_commit\<close> for one surface: the world
  and the flag \<open>maybe_apply\<close>.
\<close>

definition commit_surface :: "tref \<Rightarrow> surface \<Rightarrow> world \<times> bool \<Rightarrow> world \<times> bool" where
  "commit_surface t surface acc =
     (case acc of (w, maybe_apply) \<Rightarrow>
        (let sr = (surfaces w surface)\<lparr>last_committed := Some t\<rparr>
         in if first_committed sr = None
            then (w\<lparr>surfaces := (surfaces w)(surface := sr\<lparr>first_committed := Some t\<rparr>)\<rparr>, maybe_apply)
            else (w\<lparr>surfaces := (surfaces w)(surface := sr)\<rparr>, False)))"

text \<open>
  \<^verbatim>\<open>meta_wayland_transaction_commit\<close> up to its last statement: the world and the flag
  \<open>maybe_apply\<close> there.
\<close>

definition commit_enqueue :: "world \<Rightarrow> tref \<Rightarrow> (world \<times> bool) option" where
  "commit_enqueue w t =
     (case heap w t of
        None \<Rightarrow> None
      | Some tx \<Rightarrow>
          (let sq = sequence_counter w + 1;
               w1 = (log (EvCommit t (map fst (entries tx))) w)
                      \<lparr>sequence_counter := sq,
                       heap := (heap w)(t \<mapsto> tx\<lparr>committed_sequence := sq, node_data := True\<rparr>),
                       committed_queue := committed_queue w @ [t]\<rparr>
           in Some (fold (commit_surface t) (map fst (entries tx)) (w1, True))))"

definition meta_wayland_transaction_commit :: "world \<Rightarrow> tref \<Rightarrow> world option" where
  "meta_wayland_transaction_commit w t =
     (case commit_enqueue w t of
        None \<Rightarrow> None
      | Some (w', maybe_apply) \<Rightarrow>
          if maybe_apply then meta_wayland_transaction_maybe_apply w' t else Some w')"

section \<open>Auxiliary notions for the statements\<close>

text \<open>What the loop of commit does to one surface of the transaction.\<close>

definition commit_mark :: "tref \<Rightarrow> surface_rec \<Rightarrow> surface_rec" where
  "commit_mark t sr =
     (if first_committed sr = None
      then sr\<lparr>last_committed := Some t, first_committed := Some t\<rparr>
      else sr\<lparr>last_committed := Some t\<rparr>)"

text \<open>The surfaces that have an entry in a table.\<close>

definition entry_surfaces :: "(surface \<times> transaction_entry) list \<Rightarrow> surface set" where
  "entry_surfaces es = fst ` set es"

text \<open>
  An entry carries something when it has a state snapshot or a position override. The
  surfaces a pending state names in its placement operations, and those named by the
  snapshot of an entry.
\<close>

definition entry_ok :: "transaction_entry \<Rightarrow> bool" where
  "entry_ok e = (entry_state e \<noteq> None \<or> has_sub_pos e)"

definition op_surfaces :: "placement_op \<Rightarrow> surface set" where
  "op_surfaces op = set_option (op_surface op) \<union> set_option (op_sibling op)"

definition placement_surfaces :: "surface_state \<Rightarrow> surface set" where
  "placement_surfaces st = (\<Union>op \<in> set (subsurface_placement_ops st). op_surfaces op)"

definition entry_placement_surfaces :: "transaction_entry \<Rightarrow> surface set" where
  "entry_placement_surfaces e = (case entry_state e of None \<Rightarrow> {} | Some st \<Rightarrow> placement_surfaces st)"

text \<open>
  Every entry of every live transaction has a state snapshot or a position override, or is
  as \<^verbatim>\<open>g_new0\<close> in \<^verbatim>\<open>meta_wayland_transaction_ensure_entry\<close> made it.
\<close>

definition entries_inv :: "world \<Rightarrow> bool" where
  "entries_inv w =
     (\<forall>t tx s e. heap w t = Some tx \<and>
                 meta_wayland_transaction_get_entry (entries tx) s = Some e \<longrightarrow>
        entry_ok e \<or> e = entry0)"

subsection \<open>Concrete compositors\<close>

definition empty_state :: surface_state where
  "empty_state = \<lparr>subsurface_placement_ops = [], state_payload = []\<rparr>"

definition idle_surface :: surface_rec where
  "idle_surface = \<lparr>sub_parent = None, sub_x = 0, sub_y = 0, first_committed = None,
     last_committed = None, pending_state = empty_state\<rparr>"

text \<open>A compositor with no transaction, over a given forest of surfaces.\<close>

definition initial_world :: "(surface \<Rightarrow> surface option) \<Rightarrow> (surface \<Rightarrow> surface option) \<Rightarrow> world" where
  "initial_world par tp =
     \<lparr>surfaces = (\<lambda>s. idle_surface\<lparr>sub_parent := par s\<rparr>), toplevel = tp,
      heap = Map.empty, committed_queue = [], sequence_counter = 0, trace = []\<rparr>"

definition state_entry :: transaction_entry where
  "state_entry = entry0\<lparr>entry_state := Some empty_state\<rparr>"

text \<open>
  Two committed transactions wait in the queue: 10 on surface 1, then 11 on the surfaces 1
  and 2; one more transaction, 12, holds an entry for surface 2 and is not committed. The
  surfaces are roots.
\<close>

definition queued_world :: world where
  "queued_world =
     \<lparr>surfaces = (\<lambda>s. if s = 1 then idle_surface\<lparr>first_committed := Some 10, last_committed := Some 11\<rparr>
                      else if s = 2 then idle_surface\<lparr>first_committed := Some 11, last_committed := Some 11\<rparr>
                      else idle_surface),
      toplevel = Some,
      heap = [10 \<mapsto> \<lparr>node_data = True, next_candidate = Null, committed_sequence = 1,
                       entries = [(1, state_entry)]\<rparr>,
              11 \<mapsto> \<lparr>node_data = True, next_candidate = Null, committed_sequence = 2,
                       entries = [(1, state_entry), (2, state_entry)]\<rparr>,
              12 \<mapsto> \<lparr>node_data = False, next_candidate = Null, committed_sequence = 0,
                       entries = [(2, state_entry)]\<rparr>],
      committed_queue = [10, 11],
      sequence_counter = 2,
      trace = [EvCommit 11 [1, 2], EvCommit 10 [1]]\<rparr>"

definition payload_ops :: state_ops where
  "payload_ops =
     \<lparr>state_merge_into = (\<lambda>from to.
         to\<lparr>subsurface_placement_ops := subsurface_placement_ops to @
                (case from of None \<Rightarrow> [] | Some f \<Rightarrow> subsurface_placement_ops f),
            state_payload := state_payload to @
                (case from of None \<Rightarrow> [] | Some f \<Rightarrow> state_payload f)\<rparr>),
      state_new = empty_state,
      state_reset = (\<lambda>st. empty_state)\<rparr>"

definition placement_state :: surface_state where
  "placement_state =
     \<lparr>subsurface_placement_ops = [\<lparr>op_surface = Some 2, op_sibling = Some 3\<rparr>],
      state_payload = [7]\<rparr>"

definition placement_world :: world where
  "placement_world =
     (initial_world (\<lambda>s. None) Some)
       \<lparr>surfaces := (\<lambda>s. if s = 1 then idle_surface\<lparr>pending_state := placement_state\<rparr>
                          else idle_surface)\<rparr>"

text \<open>
  Transaction 10 takes the pending state of surface 1, which names the surfaces 2 and 3 in
  a placement operation; then it is merged into the new transaction 11.
\<close>

definition placement_built :: "world option" where
  "placement_built = do {
     w1 \<leftarrow> meta_wayland_transaction_new placement_world 10;
     w2 \<leftarrow> meta_wayland_transaction_merge_pending_state payload_ops w1 10 1;
     meta_wayland_transaction_new w2 11
   }"

definition placement_run :: "world option" where
  "placement_run = do {
     w3 \<leftarrow> placement_built;
     meta_wayland_transaction_merge_into payload_ops w3 10 11
   }"

definition entry_after :: "world option \<Rightarrow> tref \<Rightarrow> surface \<Rightarrow> transaction_entry option" where
  "entry_after r t s =
     (case r of
        None \<Rightarrow> None
      | Some w \<Rightarrow> (case heap w t of None \<Rightarrow> None | Some tx \<Rightarrow> map_of (entries tx) s))"


text \<open>
  A root 1 with the children 2 and 3, and 4 a child of 3; all four have the top-level
  surface 1.
\<close>

definition family_world :: world where
  "family_world =
     initial_world (\<lambda>s. if s = 2 \<or> s = 3 then Some 1 else if s = 4 then Some 3 else None)
                   (\<lambda>s. if s \<in> {1, 2, 3, 4} then Some 1 else Some s)"

text \<open>
  Surface 1 is the parent of surface 2 (and a child of the root 0). A transaction gets a
  state snapshot and a position override for both, and is committed.
\<close>

definition parent_child_world :: world where
  "parent_child_world =
     initial_world (\<lambda>s. if s = 1 then Some 0 else if s = 2 then Some 1 else None)
                   (\<lambda>s. if s \<in> {0, 1, 2} then Some 0 else Some s)"

definition parent_child_run :: "world option" where
  "parent_child_run = do {
     w1 \<leftarrow> meta_wayland_transaction_new parent_child_world 10;
     w2 \<leftarrow> meta_wayland_transaction_merge_pending_state payload_ops w1 10 1;
     w3 \<leftarrow> meta_wayland_transaction_add_subsurface_position w2 10 1 5 6;
     w4 \<leftarrow> meta_wayland_transaction_merge_pending_state payload_ops w3 10 2;
     w5 \<leftarrow> meta_wayland_transaction_add_subsurface_position w4 10 2 7 8;
     meta_wayland_transaction_commit w5 10
   }"

text \<open>
  Two transactions that are not committed, each with an entry for surface 1 that has a
  snapshot and a position override.
\<close>

definition merge_world :: world where
  "merge_world =
     (initial_world (\<lambda>s. None) Some)
       \<lparr>heap := [20 \<mapsto> transaction0\<lparr>entries :=
                     [(1, \<lparr>entry_state = Some \<lparr>subsurface_placement_ops = [], state_payload = [1]\<rparr>,
                           has_sub_pos = True, entry_x = 5, entry_y = 6\<rparr>)]\<rparr>,
                 21 \<mapsto> transaction0\<lparr>entries :=
                     [(1, \<lparr>entry_state = Some \<lparr>subsurface_placement_ops = [], state_payload = [2]\<rparr>,
                           has_sub_pos = True, entry_x = 1, entry_y = 2\<rparr>)]\<rparr>]\<rparr>"

section \<open>Invariants of the committed queue and of the candidate chain\<close>

text \<open>The surfaces of a live transaction, and whether a transaction has an entry for a surface.\<close>

definition keys_of :: "world \<Rightarrow> tref \<Rightarrow> surface list" where
  "keys_of w n = (case heap w n of None \<Rightarrow> [] | Some nx \<Rightarrow> map fst (entries nx))"

definition touches :: "world \<Rightarrow> surface \<Rightarrow> tref \<Rightarrow> bool" where
  "touches w s n = (s \<in> set (keys_of w n))"

text \<open>
  The commit chain of a surface: the queued transactions that have an entry for it, oldest
  first.
\<close>

definition surface_chain :: "world \<Rightarrow> surface \<Rightarrow> tref list" where
  "surface_chain w s = filter (touches w s) (committed_queue w)"

fun first_of :: "'a list \<Rightarrow> 'a option" where
  "first_of [] = None"
| "first_of (a # as) = Some a"

fun last_of :: "'a list \<Rightarrow> 'a option" where
  "last_of [] = None"
| "last_of [a] = Some a"
| "last_of (a # b # bs) = last_of (b # bs)"

definition sequence_of :: "world \<Rightarrow> tref \<Rightarrow> 64 word" where
  "sequence_of w n = (case heap w n of None \<Rightarrow> 0 | Some nx \<Rightarrow> committed_sequence nx)"

text \<open>
  \<open>path h c ts c'\<close>: following \<^verbatim>\<open>next_candidate\<close> from the value \<open>c\<close> visits the
  transactions \<open>ts\<close> and arrives at the value \<open>c'\<close>. A candidate chain is a path to the
  sentinel.
\<close>

fun path :: "(tref \<Rightarrow> transaction option) \<Rightarrow> candidate \<Rightarrow> tref list \<Rightarrow> candidate \<Rightarrow> bool" where
  "path h c [] c' = (c = c')"
| "path h c (t # ts) c' =
     (c = Ptr t \<and> (case h t of None \<Rightarrow> False | Some tx \<Rightarrow> path h (next_candidate tx) ts c'))"

definition chain :: "(tref \<Rightarrow> transaction option) \<Rightarrow> candidate \<Rightarrow> tref list \<Rightarrow> bool" where
  "chain h c ts = path h c ts TRANSACTION_NONE"

text \<open>
  The queue holds each transaction once, its members are live and committed, every live
  committed transaction is in it, and every table has each surface once.
\<close>

definition queue_ok :: "world \<Rightarrow> bool" where
  "queue_ok w =
     (distinct (committed_queue w) \<and>
      (\<forall>n \<in> set (committed_queue w). \<exists>nx. heap w n = Some nx \<and> node_data nx) \<and>
      (\<forall>n nx. heap w n = Some nx \<longrightarrow>
         distinct (map fst (entries nx)) \<and> (node_data nx \<longrightarrow> n \<in> set (committed_queue w))))"

text \<open>
  Every surface has the oldest transaction of its commit chain as \<^verbatim>\<open>first_committed\<close> and
  the newest as \<^verbatim>\<open>last_committed\<close>, and none when the chain is empty.
\<close>

definition chains_ok :: "world \<Rightarrow> bool" where
  "chains_ok w =
     (\<forall>s. first_committed (surfaces w s) = first_of (surface_chain w s) \<and>
          last_committed (surfaces w s) = last_of (surface_chain w s))"

text \<open>
  The candidate chain from \<^verbatim>\<open>first_candidate\<close> is the list \<open>cs\<close> of queued transactions,
  ascending by sequence number and without repetition, and exactly its members have a
  \<^verbatim>\<open>next_candidate\<close> that is not NULL.
\<close>

definition candidates_ok :: "world \<Rightarrow> candidate \<Rightarrow> tref list \<Rightarrow> bool" where
  "candidates_ok w fc cs =
     (chain (heap w) fc cs \<and> distinct cs \<and> sorted (map (sequence_of w) cs) \<and>
      set cs \<subseteq> set (committed_queue w) \<and>
      (\<forall>n nx. heap w n = Some nx \<longrightarrow> (next_candidate nx \<noteq> Null) = (n \<in> set cs)))"

subsection \<open>The order of applications in the event log\<close>

text \<open>
  The commits of a log (newest event first) that no later application has answered, oldest
  first, each with the surfaces of the transaction.
\<close>

fun pending :: "event list \<Rightarrow> (tref \<times> surface list) list" where
  "pending [] = []"
| "pending (EvCommit t ss # older) = pending older @ [(t, ss)]"
| "pending (EvApply t # older) = filter (\<lambda>p. fst p \<noteq> t) (pending older)"
| "pending (EvSubPos s x y # older) = pending older"
| "pending (EvApplyState s st # older) = pending older"
| "pending (EvSyncChildStates s # older) = pending older"

text \<open>
  Applying \<open>t\<close> is in turn for the pending commits \<open>ps\<close> when no commit that precedes a
  commit of \<open>t\<close> in \<open>ps\<close> shares a surface with it.
\<close>

fun in_turn :: "tref \<Rightarrow> (tref \<times> surface list) list \<Rightarrow> bool" where
  "in_turn t [] = True"
| "in_turn t (p # ps) =
     ((\<forall>q \<in> set (filter (\<lambda>q. fst q = t) ps). set (snd p) \<inter> set (snd q) = {}) \<and> in_turn t ps)"

fun applications_ordered :: "event list \<Rightarrow> bool" where
  "applications_ordered [] = True"
| "applications_ordered (EvApply t # older) =
     (in_turn t (pending older) \<and> applications_ordered older)"
| "applications_ordered (EvCommit t ss # older) = applications_ordered older"
| "applications_ordered (EvSubPos s x y # older) = applications_ordered older"
| "applications_ordered (EvApplyState s st # older) = applications_ordered older"
| "applications_ordered (EvSyncChildStates s # older) = applications_ordered older"

text \<open>The log agrees with the queue: the pending commits are the queued transactions.\<close>

definition trace_matches :: "world \<Rightarrow> bool" where
  "trace_matches w =
     (pending (trace w) = map (\<lambda>n. (n, keys_of w n)) (committed_queue w) \<and>
      applications_ordered (trace w))"

text \<open>
  The invariant at the head of the loop of \<^verbatim>\<open>meta_wayland_transaction_maybe_apply\<close>, with
  the candidates \<open>cs\<close>; between calls there is no candidate.
\<close>

definition cascade_inv :: "world \<Rightarrow> candidate \<Rightarrow> tref list \<Rightarrow> bool" where
  "cascade_inv w fc cs = (queue_ok w \<and> chains_ok w \<and> candidates_ok w fc cs \<and> trace_matches w)"

definition world_inv :: "world \<Rightarrow> bool" where
  "world_inv w = cascade_inv w TRANSACTION_NONE []"

text \<open>
  The calls the surrounding compositor makes: transactions are built, merged and discarded
  while they are not committed, and committed once; the apply/cascade engine is entered
  by commit, and here also for any queued transaction.
\<close>

inductive api_step :: "state_ops \<Rightarrow> world \<Rightarrow> world \<Rightarrow> bool" for X where
  step_new: "meta_wayland_transaction_new w t = Some w' \<Longrightarrow> api_step X w w'"
| step_add_subsurface_position:
    "heap w t = Some tx \<Longrightarrow> \<not> node_data tx \<Longrightarrow>
     meta_wayland_transaction_add_subsurface_position w t s x y = Some w' \<Longrightarrow> api_step X w w'"
| step_merge_pending_state:
    "heap w t = Some tx \<Longrightarrow> \<not> node_data tx \<Longrightarrow>
     meta_wayland_transaction_merge_pending_state X w t s = Some w' \<Longrightarrow> api_step X w w'"
| step_merge_into:
    "heap w from = Some ftx \<Longrightarrow> \<not> node_data ftx \<Longrightarrow> heap w to = Some ttx \<Longrightarrow> \<not> node_data ttx \<Longrightarrow>
     from \<noteq> to \<Longrightarrow>
     meta_wayland_transaction_merge_into X w from to = Some w' \<Longrightarrow> api_step X w w'"
| step_free:
    "heap w t = Some tx \<Longrightarrow> \<not> node_data tx \<Longrightarrow>
     meta_wayland_transaction_free w t = Some w' \<Longrightarrow> api_step X w w'"
| step_commit:
    "heap w t = Some tx \<Longrightarrow> \<not> node_data tx \<Longrightarrow>
     meta_wayland_transaction_commit w t = Some w' \<Longrightarrow> api_step X w w'"
| step_maybe_apply:
    "t \<in> set (committed_queue w) \<Longrightarrow>
     meta_wayland_transaction_maybe_apply w t = Some w' \<Longrightarrow> api_step X w w'"

text \<open>
  The configurations at the head of the loop in one run of
  \<^verbatim>\<open>meta_wayland_transaction_maybe_apply\<close> that starts in \<open>w0\<close> with \<open>t0\<close>.
\<close>

inductive cascade_reaches :: "world \<Rightarrow> tref \<Rightarrow> world \<times> tref \<times> candidate \<Rightarrow> bool"
  for w0 t0 where
  cascade_start: "cascade_reaches w0 t0 (w0, t0, TRANSACTION_NONE)"
| cascade_round:
    "cascade_reaches w0 t0 (w, t, fc) \<Longrightarrow> maybe_apply_round w t fc = Some (Inr c') \<Longrightarrow>
     cascade_reaches w0 t0 c'"

subsection \<open>Notions used in the proofs\<close>

text \<open>
  A transaction without its candidate link; two heaps have the same core when they hold
  the same transactions up to the candidate links, and two worlds the same frame when they
  differ at most in those links.
\<close>

definition strip_next :: "transaction \<Rightarrow> transaction" where
  "strip_next tx = tx\<lparr>next_candidate := Null\<rparr>"

definition core :: "(tref \<Rightarrow> transaction option) \<Rightarrow> tref \<Rightarrow> transaction option" where
  "core h n = map_option strip_next (h n)"

definition same_frame :: "world \<Rightarrow> world \<Rightarrow> bool" where
  "same_frame w w' =
     (surfaces w' = surfaces w \<and> toplevel w' = toplevel w \<and>
      committed_queue w' = committed_queue w \<and> sequence_counter w' = sequence_counter w \<and>
      trace w' = trace w \<and> core (heap w') = core (heap w))"

text \<open>The tables of the live transactions.\<close>

definition tables :: "world \<Rightarrow> tref \<Rightarrow> (surface \<times> transaction_entry) list option" where
  "tables w n = map_option entries (heap w n)"

text \<open>The nodes after the node of \<open>t\<close> in the queue.\<close>

definition after :: "tref \<Rightarrow> tref list \<Rightarrow> tref list" where
  "after t q = tl (dropWhile (\<lambda>n. n \<noteq> t) q)"

text \<open>
  The state of the first loop of \<^verbatim>\<open>meta_wayland_transaction_apply\<close> on \<open>t\<close>, started in
  \<open>w0\<close>, when the surfaces \<open>D\<close> are done: their commit chains are those of the queue
  without \<open>t\<close>, the other surfaces have theirs as in \<open>w0\<close>.
\<close>

definition pass_inv :: "world \<Rightarrow> tref \<Rightarrow> surface set \<Rightarrow> world \<Rightarrow> candidate \<Rightarrow> bool" where
  "pass_inv w0 t D w fc =
     (core (heap w) = core (heap w0) \<and> committed_queue w = committed_queue w0 \<and>
      (\<exists>cs. candidates_ok w fc cs \<and> t \<notin> set cs) \<and>
      (\<forall>s. first_committed (surfaces w s) =
             (if s \<in> D then first_of (filter (touches w0 s) (remove1 t (committed_queue w0)))
              else first_committed (surfaces w0 s)) \<and>
           last_committed (surfaces w s) =
             (if s \<in> D then last_of (filter (touches w0 s) (remove1 t (committed_queue w0)))
              else last_committed (surfaces w0 s))) \<and>
      pending (trace w) = pending (trace w0) \<and>
      applications_ordered (trace w) = applications_ordered (trace w0))"

text \<open>
  The world \<open>w'\<close> is \<open>w1\<close> with the transaction \<open>t\<close> taken out of the queue and freed;
  \<open>w1\<close> has the transactions of \<open>w0\<close> up to the candidate links.
\<close>

definition removed :: "world \<Rightarrow> world \<Rightarrow> tref \<Rightarrow> world \<Rightarrow> bool" where
  "removed w0 w1 t w' =
     (core (heap w1) = core (heap w0) \<and> committed_queue w1 = committed_queue w0 \<and>
      heap w' = (heap w1)(t := None) \<and>
      committed_queue w' = remove1 t (committed_queue w0) \<and>
      surfaces w' = surfaces w1)"

subsection \<open>Concrete compositors with waiting transactions\<close>

text \<open>Transaction 10 on surface 1 and transaction 11 on surface 2 wait in the queue.\<close>

definition disjoint_world :: world where
  "disjoint_world =
     \<lparr>surfaces = (\<lambda>s. if s = 1 then idle_surface\<lparr>first_committed := Some 10, last_committed := Some 10\<rparr>
                      else if s = 2 then idle_surface\<lparr>first_committed := Some 11, last_committed := Some 11\<rparr>
                      else idle_surface),
      toplevel = Some,
      heap = [10 \<mapsto> \<lparr>node_data = True, next_candidate = Null, committed_sequence = 1,
                       entries = [(1, state_entry)]\<rparr>,
              11 \<mapsto> \<lparr>node_data = True, next_candidate = Null, committed_sequence = 2,
                       entries = [(2, state_entry)]\<rparr>],
      committed_queue = [10, 11],
      sequence_counter = 2,
      trace = [EvCommit 11 [2], EvCommit 10 [1]]\<rparr>"

text \<open>
  Transaction 10 on the surfaces 1 and 2, then 11 on surface 1 and 12 on surface 2, wait in
  the queue.
\<close>

definition cascade_world :: world where
  "cascade_world =
     \<lparr>surfaces = (\<lambda>s. if s = 1 then idle_surface\<lparr>first_committed := Some 10, last_committed := Some 11\<rparr>
                      else if s = 2 then idle_surface\<lparr>first_committed := Some 10, last_committed := Some 12\<rparr>
                      else idle_surface),
      toplevel = Some,
      heap = [10 \<mapsto> \<lparr>node_data = True, next_candidate = Null, committed_sequence = 1,
                       entries = [(1, state_entry), (2, state_entry)]\<rparr>,
              11 \<mapsto> \<lparr>node_data = True, next_candidate = Null, committed_sequence = 2,
                       entries = [(1, state_entry)]\<rparr>,
              12 \<mapsto> \<lparr>node_data = True, next_candidate = Null, committed_sequence = 3,
                       entries = [(2, state_entry)]\<rparr>],
      committed_queue = [10, 11, 12],
      sequence_counter = 3,
      trace = [EvCommit 12 [2], EvCommit 11 [1], EvCommit 10 [1, 2]]\<rparr>"

section \<open>Destroying transactions\<close>

lemma free_live:
  "heap w t = Some tx \<Longrightarrow>
   meta_wayland_transaction_free w t =
     Some (w\<lparr>committed_queue :=
               (if node_data tx then remove1 t (committed_queue w) else committed_queue w),
             heap := (heap w)(t := None)\<rparr>)"
  by (simp add: meta_wayland_transaction_free_def)

text \<open>
  Claim C10. Freeing a live transaction whose \<^verbatim>\<open>node.data\<close> is unset (it was never
  committed) returns, removes only that transaction from the heap and leaves the
  committed queue as it was; a transaction made by \<^verbatim>\<open>meta_wayland_transaction_new\<close> has
  the field unset, and committing is what sets it.
\<close>

theorem free_uncommitted_keeps_queue:
  assumes "heap w t = Some tx" and "\<not> node_data tx"
  shows "\<exists>w'. meta_wayland_transaction_free w t = Some w' \<and>
           committed_queue w' = committed_queue w \<and>
           heap w' = (heap w)(t := None) \<and>
           \<not> node_data transaction0 \<and>
           (\<forall>w1 b tx1. commit_enqueue w t = Some (w1, b) \<and> heap w1 t = Some tx1 \<longrightarrow> node_data tx1)"
proof -
  have "\<And>w1 b tx1. commit_enqueue w t = Some (w1, b) \<Longrightarrow> heap w1 t = Some tx1 \<Longrightarrow> node_data tx1"
  proof -
    fix w1 b tx1
    assume c: "commit_enqueue w t = Some (w1, b)" and h: "heap w1 t = Some tx1"
    have keep: "\<And>ss acc. heap (fst (fold (commit_surface t) ss acc)) = heap (fst acc)"
    proof -
      fix ss and acc :: "world \<times> bool"
      show "heap (fst (fold (commit_surface t) ss acc)) = heap (fst acc)"
        by (induction ss arbitrary: acc)
           (auto simp: commit_surface_def Let_def split: prod.splits)
    qed
    from c assms(1) have "heap w1 = (heap w)(t \<mapsto> tx\<lparr>committed_sequence := sequence_counter w + 1, node_data := True\<rparr>)"
      using keep[of "map fst (entries tx)"]
      by (auto simp: commit_enqueue_def Let_def log_def dest!: arg_cong[where f = "\<lambda>p. heap (fst p)"])
    with h show "node_data tx1" by auto
  qed
  then show ?thesis
    using assms by (auto simp: free_live transaction0_def)
qed

theorem free_uncommitted_keeps_queue_witness:
  "\<exists>w'. meta_wayland_transaction_free queued_world 12 = Some w' \<and>
         committed_queue w' = [10, 11] \<and> heap w' 12 = None \<and> heap w' 10 = heap queued_world 10"
  using free_uncommitted_keeps_queue
          [of queued_world 12 "\<lparr>node_data = False, next_candidate = Null, committed_sequence = 0,
                       entries = [(2, state_entry)]\<rparr>"]
  by (auto simp: queued_world_def)



section \<open>Committing\<close>

lemma commit_surface_eq:
  "commit_surface t s (w, b) =
     (w\<lparr>surfaces := (surfaces w)(s := commit_mark t (surfaces w s))\<rparr>,
      b \<and> first_committed (surfaces w s) = None)"
  by (auto simp: commit_surface_def commit_mark_def Let_def split: option.splits)

lemma fold_commit_surface:
  "distinct ss \<Longrightarrow>
   fold (commit_surface t) ss (w, b) =
     (w\<lparr>surfaces := (\<lambda>s. if s \<in> set ss then commit_mark t (surfaces w s) else surfaces w s)\<rparr>,
      b \<and> (\<forall>s \<in> set ss. first_committed (surfaces w s) = None))"
proof (induction ss arbitrary: w b)
  case Nil
  then show ?case by simp
next
  case (Cons a ss)
  have "(\<lambda>s. if s \<in> set ss
              then commit_mark t (((surfaces w)(a := commit_mark t (surfaces w a))) s)
              else ((surfaces w)(a := commit_mark t (surfaces w a))) s) =
        (\<lambda>s. if s \<in> set (a # ss) then commit_mark t (surfaces w s) else surfaces w s)"
    using Cons.prems by (auto simp: fun_eq_iff)
  moreover have "(\<forall>s \<in> set ss. first_committed (((surfaces w)(a := commit_mark t (surfaces w a))) s) = None)
      = (\<forall>s \<in> set ss. first_committed (surfaces w s) = None)"
    using Cons.prems by auto
  ultimately show ?case
    using Cons.prems by (simp add: commit_surface_eq Cons.IH cong: if_cong)
qed

lemma commit_enqueue_eq:
  assumes "heap w t = Some tx" and "distinct (map fst (entries tx))"
  shows "commit_enqueue w t =
     Some (w\<lparr>surfaces := (\<lambda>s. if s \<in> entry_surfaces (entries tx) then commit_mark t (surfaces w s)
                                else surfaces w s),
             heap := (heap w)(t \<mapsto> tx\<lparr>committed_sequence := sequence_counter w + 1, node_data := True\<rparr>),
             committed_queue := committed_queue w @ [t],
             sequence_counter := sequence_counter w + 1,
             trace := EvCommit t (map fst (entries tx)) # trace w\<rparr>,
           \<forall>s \<in> entry_surfaces (entries tx). first_committed (surfaces w s) = None)"
  using assms
  by (simp add: commit_enqueue_def Let_def fold_commit_surface log_def entry_surfaces_def cong: if_cong)

text \<open>
  Claim C2. Committing a live transaction (its table has each surface once) appends it to
  the committed queue and logs the commit; the flag \<open>maybe_apply\<close> is set at the end of
  the loop if and only if no surface of the transaction had a \<^verbatim>\<open>first_committed\<close>
  transaction when commit started. With the flag set, commit is the call of
  \<^verbatim>\<open>meta_wayland_transaction_maybe_apply\<close> on the transaction; otherwise commit returns
  there, the transaction live at the tail of the queue and no application logged.
\<close>

theorem commit_applies_iff_unclaimed:
  assumes "heap w t = Some tx" and "distinct (map fst (entries tx))"
  shows "\<exists>w1 b. commit_enqueue w t = Some (w1, b) \<and>
           (b \<longleftrightarrow> (\<forall>s \<in> entry_surfaces (entries tx). first_committed (surfaces w s) = None)) \<and>
           committed_queue w1 = committed_queue w @ [t] \<and>
           trace w1 = EvCommit t (map fst (entries tx)) # trace w \<and>
           heap w1 t \<noteq> None \<and>
           meta_wayland_transaction_commit w t =
             (if b then meta_wayland_transaction_maybe_apply w1 t else Some w1)"
  by (simp add: commit_enqueue_eq[OF assms] meta_wayland_transaction_commit_def)

theorem commit_applies_iff_unclaimed_witness:
  "\<exists>w1. meta_wayland_transaction_commit queued_world 12 = Some w1 \<and>
         committed_queue w1 = [10, 11, 12] \<and>
         trace w1 = [EvCommit 12 [2], EvCommit 11 [1, 2], EvCommit 10 [1]] \<and>
         first_committed (surfaces queued_world 2) = Some 11"
  using commit_applies_iff_unclaimed
          [of queued_world 12 "\<lparr>node_data = False, next_candidate = Null, committed_sequence = 0,
                       entries = [(2, state_entry)]\<rparr>"]
  by (auto simp: queued_world_def entry_surfaces_def)

text \<open>
  Claim C9. Committing a live transaction with an empty table that is not in the queue
  returns: the commit and one application are logged, nothing is done to any surface, the
  queue is as before the commit and the transaction is destroyed.
\<close>

theorem commit_empty_applies_immediately:
  assumes "heap w t = Some tx" and "entries tx = []" and "t \<notin> set (committed_queue w)"
  shows "\<exists>w1. commit_enqueue w t = Some (w1, True) \<and>
           committed_queue w1 = committed_queue w @ [t] \<and>
           has_unapplied_dependencies w1 t = Some False \<and>
           meta_wayland_transaction_commit w t =
             Some (w\<lparr>heap := (heap w)(t := None),
                     sequence_counter := sequence_counter w + 1,
                     trace := EvApply t # EvCommit t [] # trace w\<rparr>)"
proof -
  let ?tx = "tx\<lparr>committed_sequence := sequence_counter w + 1, node_data := True\<rparr>"
  let ?w1 = "w\<lparr>heap := (heap w)(t \<mapsto> ?tx), committed_queue := committed_queue w @ [t],
      sequence_counter := sequence_counter w + 1, trace := EvCommit t [] # trace w\<rparr>"
  let ?w2 = "w\<lparr>heap := (heap w)(t := None), sequence_counter := sequence_counter w + 1,
      trace := EvApply t # EvCommit t [] # trace w\<rparr>"
  have enq: "commit_enqueue w t = Some (?w1, True)"
    using assms by (simp add: commit_enqueue_def Let_def log_def)
  have dep: "has_unapplied_dependencies ?w1 t = Some False"
    using assms by (simp add: has_unapplied_dependencies_def)
  have app: "meta_wayland_transaction_apply ?w1 t TRANSACTION_NONE = Some (?w2, TRANSACTION_NONE)"
    using assms
    by (simp add: meta_wayland_transaction_apply_def Let_def log_def sync_child_states_def
        meta_wayland_transaction_free_def remove1_append)
  have "maybe_apply_round ?w1 t TRANSACTION_NONE = Some (Inl ?w2)"
    by (simp add: maybe_apply_round_def meta_wayland_transaction_maybe_apply_one_def dep app)
  then have "meta_wayland_transaction_maybe_apply ?w1 t = Some ?w2"
    by (simp add: meta_wayland_transaction_maybe_apply_def maybe_apply_loop.simps)
  then have "meta_wayland_transaction_commit w t = Some ?w2"
    by (simp add: meta_wayland_transaction_commit_def enq)
  with enq dep show ?thesis by simp
qed

theorem commit_empty_applies_immediately_witness:
  "meta_wayland_transaction_commit
     ((initial_world (\<lambda>s. None) Some)\<lparr>heap := [10 \<mapsto> transaction0]\<rparr>) 10 =
   Some ((initial_world (\<lambda>s. None) Some)
           \<lparr>heap := Map.empty, sequence_counter := 1, trace := [EvApply 10, EvCommit 10 []]\<rparr>)"
  using commit_empty_applies_immediately
          [of "(initial_world (\<lambda>s. None) Some)\<lparr>heap := [10 \<mapsto> transaction0]\<rparr>" 10 transaction0]
  by (auto simp: initial_world_def transaction0_def)

section \<open>Building and merging transactions\<close>

lemma map_of_ensure_entry:
  "map_of (fst (meta_wayland_transaction_ensure_entry es s')) s =
     (case map_of es s of Some e \<Rightarrow> Some e | None \<Rightarrow> if s = s' then Some entry0 else None)"
  by (auto simp: meta_wayland_transaction_ensure_entry_def meta_wayland_transaction_get_entry_def
      update_conv' split: option.splits)

lemma snd_ensure_entry:
  "map_of (fst (meta_wayland_transaction_ensure_entry es s)) s =
     Some (snd (meta_wayland_transaction_ensure_entry es s))"
  by (auto simp: meta_wayland_transaction_ensure_entry_def meta_wayland_transaction_get_entry_def
      update_conv' split: option.splits)

lemma distinct_ensure_entry:
  "distinct (map fst es) \<Longrightarrow> distinct (map fst (fst (meta_wayland_transaction_ensure_entry es s)))"
  by (auto simp: meta_wayland_transaction_ensure_entry_def distinct_update split: option.splits)

lemma map_of_add_placement_op:
  "map_of (add_placement_op op es) s =
     (case map_of es s of Some e \<Rightarrow> Some e | None \<Rightarrow> if s \<in> op_surfaces op then Some entry0 else None)"
  by (auto simp: add_placement_op_def Let_def map_of_ensure_entry op_surfaces_def
      split: option.splits)

lemma distinct_add_placement_op:
  "distinct (map fst es) \<Longrightarrow> distinct (map fst (add_placement_op op es))"
  by (auto simp: add_placement_op_def Let_def distinct_ensure_entry split: option.splits)

lemma map_of_fold_add_placement_op:
  "map_of (fold add_placement_op ops es) s =
     (case map_of es s of Some e \<Rightarrow> Some e
      | None \<Rightarrow> if s \<in> (\<Union>op \<in> set ops. op_surfaces op) then Some entry0 else None)"
proof (induction ops arbitrary: es)
  case Nil
  then show ?case by (simp split: option.splits)
next
  case (Cons op ops)
  show ?case
    by (simp add: Cons.IH map_of_add_placement_op split: option.splits)
qed

lemma map_of_add_placement_surfaces:
  "map_of (meta_wayland_transaction_add_placement_surfaces es x st) s =
     (case map_of es s of Some e \<Rightarrow> Some e
      | None \<Rightarrow> if s \<in> placement_surfaces st then Some entry0 else None)"
  by (auto simp: meta_wayland_transaction_add_placement_surfaces_def map_of_fold_add_placement_op
      placement_surfaces_def split: option.splits)

lemma distinct_fold_add_placement_op:
  "distinct (map fst es) \<Longrightarrow> distinct (map fst (fold add_placement_op ops es))"
  by (induction ops arbitrary: es) (auto simp: distinct_add_placement_op)

lemma distinct_add_placement_surfaces:
  "distinct (map fst es) \<Longrightarrow>
   distinct (map fst (meta_wayland_transaction_add_placement_surfaces es x st))"
  by (simp add: meta_wayland_transaction_add_placement_surfaces_def distinct_fold_add_placement_op)

lemma map_of_merge_into_step:
  "map_of (merge_into_step X (sf, fe) tes) s =
     (if s = sf
      then Some (case map_of tes sf of
                   None \<Rightarrow> fe
                 | Some te \<Rightarrow> snd (meta_wayland_transaction_entry_merge_into X fe te))
      else (case map_of tes s of
              Some e \<Rightarrow> Some e
            | None \<Rightarrow> if s \<in> entry_placement_surfaces fe then Some entry0 else None))"
  by (auto simp: merge_into_step_def meta_wayland_transaction_get_entry_def
      meta_wayland_transaction_add_entry_def Let_def update_conv' map_of_add_placement_surfaces
      entry_placement_surfaces_def
      split: option.splits)

lemma fold_merge_into_step_other:
  "s \<notin> fst ` set fes \<Longrightarrow> map_of tes s = Some e \<Longrightarrow>
   map_of (fold (merge_into_step X) fes tes) s = Some e"
proof (induction fes arbitrary: tes)
  case Nil
  then show ?case by simp
next
  case (Cons p fes)
  obtain sf fe where p: "p = (sf, fe)" by (cases p)
  from Cons.prems p have "map_of (merge_into_step X p tes) s = Some e"
    by (simp add: map_of_merge_into_step)
  with Cons show ?case by simp
qed

lemma merge_entries_both:
  assumes "distinct (map fst fes)" and "map_of fes s = Some fe" and "map_of tes s = Some te"
  shows "map_of (merge_entries X fes tes) s =
           Some (snd (meta_wayland_transaction_entry_merge_into X fe te))"
  using assms unfolding merge_entries_def
proof (induction fes arbitrary: tes)
  case Nil
  then show ?case by simp
next
  case (Cons p fes)
  obtain sf fe' where p: "p = (sf, fe')" by (cases p)
  show ?case
  proof (cases "sf = s")
    case True
    with Cons.prems p have fe: "fe' = fe" and notin: "s \<notin> fst ` set fes" by auto
    have "map_of (merge_into_step X p tes) s =
            Some (snd (meta_wayland_transaction_entry_merge_into X fe te))"
      using True p fe Cons.prems(3) by (simp add: map_of_merge_into_step)
    from fold_merge_into_step_other[OF notin this] show ?thesis by simp
  next
    case False
    with Cons.prems p have d: "distinct (map fst fes)" and m: "map_of fes s = Some fe" by auto
    have "map_of (merge_into_step X p tes) s = Some te"
      using False p Cons.prems(3) by (simp add: map_of_merge_into_step)
    from Cons.IH[OF d m this] show ?thesis by simp
  qed
qed


lemma entry_merge_into_ok:
  "entry_ok fe \<Longrightarrow> entry_ok (snd (meta_wayland_transaction_entry_merge_into X fe te))"
  by (auto simp: entry_ok_def meta_wayland_transaction_entry_merge_into_def Let_def
      split: option.splits)

lemma merge_into_live:
  assumes "heap w from = Some ftx" and "heap w to = Some ttx" and "from \<noteq> to"
  shows "meta_wayland_transaction_merge_into X w from to =
     Some (w\<lparr>committed_queue :=
               (if node_data ftx then remove1 from (committed_queue w) else committed_queue w),
             heap := (heap w)(to \<mapsto> ttx\<lparr>entries := merge_entries X (entries ftx) (entries ttx)\<rparr>,
                              from := None)\<rparr>)"
  using assms by (simp add: meta_wayland_transaction_merge_into_def free_live)

text \<open>
  Claim C7. Merging the live transaction \<open>from\<close> into another live transaction \<open>to\<close>
  returns and destroys \<open>from\<close>. For a surface that has the entry \<open>fe\<close> in \<open>from\<close> and the
  entry \<open>te\<close> in \<open>to\<close>, the entry of \<open>to\<close> afterwards has the position override of \<open>fe\<close>
  when \<open>fe\<close> has one and that of \<open>te\<close> otherwise; it has the external merge of the two
  snapshots when both entries have one, and the snapshot of \<open>fe\<close> when only \<open>fe\<close> has
  one; the entry merge leaves \<open>fe\<close> without a snapshot.
\<close>

theorem merge_into_combines_shared_entries:
  assumes "heap w from = Some ftx" and "heap w to = Some ttx" and "from \<noteq> to"
    and "distinct (map fst (entries ftx))"
    and "meta_wayland_transaction_get_entry (entries ftx) s = Some fe"
    and "meta_wayland_transaction_get_entry (entries ttx) s = Some te"
  shows "\<exists>w' ttx' te'.
           meta_wayland_transaction_merge_into X w from to = Some w' \<and>
           heap w' from = None \<and> heap w' to = Some ttx' \<and>
           meta_wayland_transaction_get_entry (entries ttx') s = Some te' \<and>
           (has_sub_pos fe \<longrightarrow>
              has_sub_pos te' \<and> entry_x te' = entry_x fe \<and> entry_y te' = entry_y fe) \<and>
           (\<not> has_sub_pos fe \<longrightarrow>
              has_sub_pos te' = has_sub_pos te \<and> entry_x te' = entry_x te \<and> entry_y te' = entry_y te) \<and>
           (\<forall>fs ts. entry_state fe = Some fs \<and> entry_state te = Some ts \<longrightarrow>
              entry_state te' = Some (state_merge_into X (Some fs) ts)) \<and>
           (\<forall>fs. entry_state fe = Some fs \<and> entry_state te = None \<longrightarrow> entry_state te' = Some fs) \<and>
           entry_state (fst (meta_wayland_transaction_entry_merge_into X fe te)) = None"
proof -
  let ?te' = "snd (meta_wayland_transaction_entry_merge_into X fe te)"
  have m: "map_of (merge_entries X (entries ftx) (entries ttx)) s = Some ?te'"
    using merge_entries_both[OF assms(4)] assms(5,6)
    by (simp add: meta_wayland_transaction_get_entry_def)
  have props:
    "has_sub_pos fe \<longrightarrow> has_sub_pos ?te' \<and> entry_x ?te' = entry_x fe \<and> entry_y ?te' = entry_y fe"
    "\<not> has_sub_pos fe \<longrightarrow>
       has_sub_pos ?te' = has_sub_pos te \<and> entry_x ?te' = entry_x te \<and> entry_y ?te' = entry_y te"
    "\<forall>fs ts. entry_state fe = Some fs \<and> entry_state te = Some ts \<longrightarrow>
       entry_state ?te' = Some (state_merge_into X (Some fs) ts)"
    "\<forall>fs. entry_state fe = Some fs \<and> entry_state te = None \<longrightarrow> entry_state ?te' = Some fs"
    "entry_state (fst (meta_wayland_transaction_entry_merge_into X fe te)) = None"
    by (auto simp: meta_wayland_transaction_entry_merge_into_def Let_def split: option.splits)
  show ?thesis
    using m props assms(3)
    by (simp add: merge_into_live[OF assms(1,2,3)] meta_wayland_transaction_get_entry_def)
qed

theorem merge_into_combines_shared_entries_witness:
  "\<exists>w' ttx'. meta_wayland_transaction_merge_into payload_ops merge_world 20 21 = Some w' \<and>
      heap w' 20 = None \<and> heap w' 21 = Some ttx' \<and>
      meta_wayland_transaction_get_entry (entries ttx') 1 =
        Some \<lparr>entry_state = Some \<lparr>subsurface_placement_ops = [], state_payload = [2, 1]\<rparr>,
              has_sub_pos = True, entry_x = 5, entry_y = 6\<rparr>"
proof -
  let ?fe = "\<lparr>entry_state = Some \<lparr>subsurface_placement_ops = [], state_payload = [1]\<rparr>,
               has_sub_pos = True, entry_x = 5, entry_y = 6\<rparr>"
  let ?te = "\<lparr>entry_state = Some \<lparr>subsurface_placement_ops = [], state_payload = [2]\<rparr>,
               has_sub_pos = True, entry_x = 1, entry_y = 2\<rparr>"
  have h: "heap merge_world 20 = Some (transaction0\<lparr>entries := [(1, ?fe)]\<rparr>)"
          "heap merge_world 21 = Some (transaction0\<lparr>entries := [(1, ?te)]\<rparr>)"
          "(20::nat) \<noteq> 21"
          "distinct (map fst (entries (transaction0\<lparr>entries := [(1, ?fe)]\<rparr>)))"
          "meta_wayland_transaction_get_entry (entries (transaction0\<lparr>entries := [(1, ?fe)]\<rparr>)) 1 = Some ?fe"
          "meta_wayland_transaction_get_entry (entries (transaction0\<lparr>entries := [(1, ?te)]\<rparr>)) 1 = Some ?te"
    by (simp_all add: merge_world_def initial_world_def meta_wayland_transaction_get_entry_def)
  from merge_into_combines_shared_entries[OF h, of payload_ops]
  obtain w' ttx' te' where r:
    "meta_wayland_transaction_merge_into payload_ops merge_world 20 21 = Some w'"
    "heap w' 20 = None" "heap w' 21 = Some ttx'"
    "meta_wayland_transaction_get_entry (entries ttx') 1 = Some te'"
    "has_sub_pos te'" "entry_x te' = 5" "entry_y te' = 6"
    "entry_state te' = Some (state_merge_into payload_ops
        (Some \<lparr>subsurface_placement_ops = [], state_payload = [1]\<rparr>)
        \<lparr>subsurface_placement_ops = [], state_payload = [2]\<rparr>)"
    by auto
  from r(5-8) have "te' = \<lparr>entry_state = Some \<lparr>subsurface_placement_ops = [], state_payload = [2, 1]\<rparr>,
              has_sub_pos = True, entry_x = 5, entry_y = 6\<rparr>"
    by (cases te') (simp add: payload_ops_def)
  with r(1-4) show ?thesis by blast
qed


lemma map_of_update_ensure_entry:
  "map_of (AList.update s e (fst (meta_wayland_transaction_ensure_entry es s))) s' =
     (if s' = s then Some e else map_of es s')"
  by (auto simp: update_conv' map_of_ensure_entry split: option.splits)

lemma add_subsurface_position_live:
  assumes "heap w t = Some tx"
  shows "\<exists>tx'. meta_wayland_transaction_add_subsurface_position w t s x y =
             Some (w\<lparr>heap := (heap w)(t \<mapsto> tx')\<rparr>) \<and>
           node_data tx' = node_data tx \<and> next_candidate tx' = next_candidate tx \<and>
           committed_sequence tx' = committed_sequence tx \<and>
           (distinct (map fst (entries tx)) \<longrightarrow> distinct (map fst (entries tx'))) \<and>
           (\<forall>s'. map_of (entries tx') s' =
              (if s' = s
               then Some ((snd (meta_wayland_transaction_ensure_entry (entries tx) s))
                            \<lparr>entry_x := x, entry_y := y, has_sub_pos := True\<rparr>)
               else map_of (entries tx) s'))"
proof -
  obtain es e0 where ee: "meta_wayland_transaction_ensure_entry (entries tx) s = (es, e0)"
    by (cases "meta_wayland_transaction_ensure_entry (entries tx) s")
  have es: "es = fst (meta_wayland_transaction_ensure_entry (entries tx) s)"
    and d: "distinct (map fst (entries tx)) \<longrightarrow> distinct (map fst es)"
    using ee distinct_ensure_entry[of "entries tx" s] by auto
  let ?e = "e0\<lparr>entry_x := x, entry_y := y, has_sub_pos := True\<rparr>"
  let ?tx' = "tx\<lparr>entries := AList.update s ?e es\<rparr>"
  have "meta_wayland_transaction_add_subsurface_position w t s x y =
      Some (w\<lparr>heap := (heap w)(t \<mapsto> ?tx')\<rparr>)"
    using assms ee by (simp add: meta_wayland_transaction_add_subsurface_position_def)
  moreover have "\<forall>s'. map_of (entries ?tx') s' = (if s' = s then Some ?e else map_of (entries tx) s')"
    using es by (simp add: map_of_update_ensure_entry)
  ultimately show ?thesis
    using d ee by (intro exI[of _ ?tx']) (auto simp: distinct_update)
qed

lemma merge_pending_state_live:
  assumes "heap w t = Some tx"
  shows "\<exists>tx' sf'. meta_wayland_transaction_merge_pending_state X w t s =
             Some (w\<lparr>heap := (heap w)(t \<mapsto> tx'), surfaces := sf'\<rparr>) \<and>
           node_data tx' = node_data tx \<and> next_candidate tx' = next_candidate tx \<and>
           committed_sequence tx' = committed_sequence tx \<and>
           (\<forall>u. first_committed (sf' u) = first_committed (surfaces w u) \<and>
                last_committed (sf' u) = last_committed (surfaces w u) \<and>
                sub_parent (sf' u) = sub_parent (surfaces w u)) \<and>
           (distinct (map fst (entries tx)) \<longrightarrow> distinct (map fst (entries tx'))) \<and>
           (\<exists>e. entry_state e \<noteq> None \<and>
              has_sub_pos e = has_sub_pos (snd (meta_wayland_transaction_ensure_entry (entries tx) s)) \<and>
              (\<forall>s'. map_of (entries tx') s' = (if s' = s then Some e else map_of (entries tx) s')))"
proof -
  obtain es e0 where ee: "meta_wayland_transaction_ensure_entry (entries tx) s = (es, e0)"
    by (cases "meta_wayland_transaction_ensure_entry (entries tx) s")
  have es: "es = fst (meta_wayland_transaction_ensure_entry (entries tx) s)"
    and d: "distinct (map fst (entries tx)) \<longrightarrow> distinct (map fst es)"
    using ee distinct_ensure_entry[of "entries tx" s] by auto
  show ?thesis
  proof (cases "entry_state e0")
    case None
    let ?e = "e0\<lparr>entry_state := Some (pending_state (surfaces w s))\<rparr>"
    let ?tx' = "tx\<lparr>entries := AList.update s ?e es\<rparr>"
    let ?sf' = "(surfaces w)(s := (surfaces w s)\<lparr>pending_state := state_new X\<rparr>)"
    have "meta_wayland_transaction_merge_pending_state X w t s =
        Some (w\<lparr>heap := (heap w)(t \<mapsto> ?tx'), surfaces := ?sf'\<rparr>)"
      using assms ee None by (simp add: meta_wayland_transaction_merge_pending_state_def Let_def)
    moreover have "\<forall>s'. map_of (entries ?tx') s' = (if s' = s then Some ?e else map_of (entries tx) s')"
      using es by (simp add: map_of_update_ensure_entry)
    moreover have "entry_state ?e \<noteq> None" "has_sub_pos ?e = has_sub_pos e0" by simp_all
    ultimately show ?thesis
      using d ee by (intro exI[of _ ?tx'] exI[of _ ?sf']) (auto simp: distinct_update intro!: exI[of _ ?e])
  next
    case (Some st)
    let ?e = "e0\<lparr>entry_state := Some (state_merge_into X (Some (pending_state (surfaces w s))) st)\<rparr>"
    let ?tx' = "tx\<lparr>entries := AList.update s ?e es\<rparr>"
    let ?sf' = "(surfaces w)(s := (surfaces w s)\<lparr>pending_state := state_reset X (pending_state (surfaces w s))\<rparr>)"
    have "meta_wayland_transaction_merge_pending_state X w t s =
        Some (w\<lparr>heap := (heap w)(t \<mapsto> ?tx'), surfaces := ?sf'\<rparr>)"
      using assms ee Some by (simp add: meta_wayland_transaction_merge_pending_state_def Let_def)
    moreover have "\<forall>s'. map_of (entries ?tx') s' = (if s' = s then Some ?e else map_of (entries tx) s')"
      using es by (simp add: map_of_update_ensure_entry)
    moreover have "entry_state ?e \<noteq> None" "has_sub_pos ?e = has_sub_pos e0" by simp_all
    ultimately show ?thesis
      using d ee by (intro exI[of _ ?tx'] exI[of _ ?sf']) (auto simp: distinct_update intro!: exI[of _ ?e])
  qed
qed


lemma distinct_merge_into_step:
  "distinct (map fst tes) \<Longrightarrow> distinct (map fst (merge_into_step X p tes))"
  by (cases p)
     (auto simp: merge_into_step_def meta_wayland_transaction_add_entry_def Let_def
       distinct_update distinct_add_placement_surfaces split: option.splits)

lemma distinct_merge_entries:
  "distinct (map fst tes) \<Longrightarrow> distinct (map fst (merge_entries X fes tes))"
  unfolding merge_entries_def
  by (induction fes arbitrary: tes) (auto simp: distinct_merge_into_step)

section \<open>The order of the surfaces\<close>

text \<open>
  Claim C4 at a failing input: the surface 2 and its nephew 4 have different parents, neither
  is an ancestor of the other, and they have the same top-level surface. The comparison
  returns 1 in both directions. With the sibling 3 of 2, which is the parent of 4: 2 and 3
  compare equal, 2 is less than neither 4 nor the converse, yet 4 is less than 3.
\<close>

theorem compare_uncle_nephew:
  "meta_wayland_transaction_compare family_world 2 4 = Some 1 \<and>
   meta_wayland_transaction_compare family_world 4 2 = Some 1 \<and>
   meta_wayland_transaction_compare family_world 2 3 = Some 0 \<and>
   meta_wayland_transaction_compare family_world 3 2 = Some 0 \<and>
   meta_wayland_transaction_compare family_world 3 4 = Some 1 \<and>
   meta_wayland_transaction_compare family_world 4 3 = Some (- 1)"
  by (simp add: meta_wayland_transaction_compare_def family_world_def initial_world_def
      is_ancestor_def is_ancestor_loop.simps idle_surface_def)

text \<open>
  Claim C3 at a failing input: a transaction with a snapshot and a position override for the
  surface 1 and for its child 2 is committed. The log, newest event first: the child 2 gets
  its position and state before the parent 1, and the child states of the parent 1 are
  synchronised before those of the child 2. The comparison puts the parent after the
  child (1 for parent against child), so every sort of the two surfaces gives this order.
\<close>

theorem parent_child_applied_child_first:
  "map_option trace parent_child_run =
     Some [EvSyncChildStates 2, EvSyncChildStates 1,
           EvApplyState 1 empty_state, EvSubPos 1 5 6,
           EvApplyState 2 empty_state, EvSubPos 2 7 8,
           EvApply 10, EvCommit 10 [1, 2]] \<and>
   meta_wayland_transaction_compare parent_child_world 1 2 = Some 1 \<and>
   meta_wayland_transaction_compare parent_child_world 2 1 = Some (- 1)"
  by code_simp

lemma core_eqD:
  assumes "core h' = core h"
  shows "(h' n = None) = (h n = None)"
    and "h n = Some nx \<Longrightarrow> \<exists>nx'. h' n = Some nx' \<and> entries nx' = entries nx \<and>
           node_data nx' = node_data nx \<and> committed_sequence nx' = committed_sequence nx"
proof -
  from assms have e: "map_option strip_next (h' n) = map_option strip_next (h n)"
    by (simp add: core_def fun_eq_iff)
  then show "(h' n = None) = (h n = None)" by (cases "h n"; cases "h' n") auto
  assume "h n = Some nx"
  with e obtain nx' where "h' n = Some nx'" "strip_next nx' = strip_next nx"
    by (cases "h' n") auto
  then show "\<exists>nx'. h' n = Some nx' \<and> entries nx' = entries nx \<and>
           node_data nx' = node_data nx \<and> committed_sequence nx' = committed_sequence nx"
    by (cases nx; cases nx') (auto simp: strip_next_def)
qed

lemma core_upd_next:
  "h n = Some nx \<Longrightarrow> core (h(n \<mapsto> nx\<lparr>next_candidate := c\<rparr>)) = core h"
  by (auto simp: core_def fun_eq_iff strip_next_def)

lemma keys_of_core: "core (heap w') = core (heap w) \<Longrightarrow> keys_of w' n = keys_of w n"
  using core_eqD[of "heap w'" "heap w" n]
  by (cases "heap w n") (auto simp: keys_of_def)

lemma sequence_of_core: "core (heap w') = core (heap w) \<Longrightarrow> sequence_of w' n = sequence_of w n"
  using core_eqD[of "heap w'" "heap w" n]
  by (cases "heap w n") (auto simp: sequence_of_def)

lemma same_frame_refl: "same_frame w w"
  by (simp add: same_frame_def)

lemma same_frame_trans: "same_frame w w' \<Longrightarrow> same_frame w' w'' \<Longrightarrow> same_frame w w''"
  by (simp add: same_frame_def)

subsection \<open>Paths\<close>

lemma path_append:
  "path h c (as @ bs) c' = (\<exists>m. path h c as m \<and> path h m bs c')"
  by (induction as arbitrary: c) (auto split: option.splits)

lemma path_upd_notin:
  "n \<notin> set ts \<Longrightarrow> path (h(n := v)) c ts c' = path h c ts c'"
  by (induction ts arbitrary: c) (auto split: option.splits)

lemma path_live: "path h c ts c' \<Longrightarrow> n \<in> set ts \<Longrightarrow> h n \<noteq> None"
  by (induction ts arbitrary: c) (auto split: option.splits)

lemma path_snoc:
  "path h c (ts @ [p]) c' = (\<exists>px. path h c ts (Ptr p) \<and> h p = Some px \<and> next_candidate px = c')"
  by (auto simp: path_append split: option.splits)

lemma path_unique: "path h c ts c' \<Longrightarrow> path h c ts c'' \<Longrightarrow> c' = c''"
  by (induction ts arbitrary: c) (auto split: option.splits)

subsection \<open>The search of ensure_next_candidate\<close>

lemma ensure_next_candidate_loop_finds:
  assumes "read_slot w fc sl = Some c" and "chain (heap w) c ts"
  shows "ensure_next_candidate_loop w fc sq sl =
           Some (if takeWhile (\<lambda>n. sequence_of w n < sq) ts = [] then sl
                 else Next_candidate_of (last (takeWhile (\<lambda>n. sequence_of w n < sq) ts)))"
  using assms unfolding chain_def
proof (induction ts arbitrary: sl c)
  case Nil
  then show ?case
    by (subst ensure_next_candidate_loop.simps) simp
next
  case (Cons n ts)
  from Cons.prems(2) obtain nx where c: "c = Ptr n" and nx: "heap w n = Some nx"
    and p: "path (heap w) (next_candidate nx) ts TRANSACTION_NONE"
    by (auto split: option.splits)
  show ?case
  proof (cases "committed_sequence nx < sq")
    case True
    have r: "read_slot w fc (Next_candidate_of n) = Some (next_candidate nx)"
      using nx by (simp add: read_slot_def)
    have "ensure_next_candidate_loop w fc sq sl =
            ensure_next_candidate_loop w fc sq (Next_candidate_of n)"
      using Cons.prems(1) c nx True by (subst ensure_next_candidate_loop.simps) simp
    also note Cons.IH[OF r p]
    finally show ?thesis
      using True nx by (simp add: sequence_of_def)
  next
    case False
    then show ?thesis
      using Cons.prems(1) c nx
      by (subst ensure_next_candidate_loop.simps) (simp add: sequence_of_def)
  qed
qed

lemma last_notin_butlast: "distinct xs \<Longrightarrow> xs \<noteq> [] \<Longrightarrow> last xs \<notin> set (butlast xs)"
  by (induction xs) auto

lemma insort_key_split:
  "insort_key f x xs = takeWhile (\<lambda>y. f y < f x) xs @ x # dropWhile (\<lambda>y. f y < f x) xs"
  by (induction xs) (auto simp: not_less)

lemma path_to_sentinel_nonnull: "path h m ts TRANSACTION_NONE \<Longrightarrow> m \<noteq> Null"
  by (cases ts) auto

lemma ensure_next_candidate_present:
  assumes "heap w t = Some tx" and "next_candidate tx \<noteq> Null"
  shows "ensure_next_candidate w t fc = Some (w, fc)"
  using assms by (simp add: ensure_next_candidate_def)

lemma ensure_next_candidate_inserts:
  assumes ch: "chain (heap w) fc cs" and d: "distinct cs"
    and t: "heap w t = Some tx" and tn: "next_candidate tx = Null" and tcs: "t \<notin> set cs"
  shows "\<exists>w' fc'. ensure_next_candidate w t fc = Some (w', fc') \<and> same_frame w w' \<and>
           chain (heap w') fc' (insort_key (sequence_of w) t cs) \<and>
           (\<forall>n. n \<notin> set (t # cs) \<longrightarrow> heap w' n = heap w n) \<and>
           (\<forall>n \<in> set (t # cs). \<exists>nx. heap w' n = Some nx \<and> next_candidate nx \<noteq> Null)"
proof -
  let ?sq = "committed_sequence tx"
  let ?P = "\<lambda>n. sequence_of w n < sequence_of w t"
  let ?pre = "takeWhile ?P cs" and ?post = "dropWhile ?P cs"
  have sq: "sequence_of w t = ?sq" using t by (simp add: sequence_of_def)
  have cs: "cs = ?pre @ ?post" by simp
  from ch have "path (heap w) fc (?pre @ ?post) TRANSACTION_NONE"
    by (simp add: chain_def)
  then obtain m where pre: "path (heap w) fc ?pre m" and post: "path (heap w) m ?post TRANSACTION_NONE"
    unfolding path_append by blast
  have m: "m \<noteq> Null" using post by (rule path_to_sentinel_nonnull)
  have tpre: "t \<notin> set ?pre" and tpost: "t \<notin> set ?post"
    using tcs by (meson set_takeWhileD set_dropWhileD)+
  have "distinct (?pre @ ?post)" using d by simp
  then have dpp: "distinct ?pre" "distinct ?post" "set ?pre \<inter> set ?post = {}"
    unfolding distinct_append by blast+
  let ?sl = "if ?pre = [] then First_candidate else Next_candidate_of (last ?pre)"
  have loop: "ensure_next_candidate_loop w fc ?sq First_candidate = Some ?sl"
    using ensure_next_candidate_loop_finds[of w fc First_candidate fc cs ?sq] ch
    by (simp add: read_slot_def sq)
  let ?tx1 = "tx\<lparr>next_candidate := m\<rparr>"
  let ?h1 = "(heap w)(t \<mapsto> ?tx1)"
  let ?w1 = "w\<lparr>heap := ?h1\<rparr>"
  have post1: "path ?h1 m ?post TRANSACTION_NONE"
    using post tpost by (simp add: path_upd_notin)
  have ins: "insort_key (sequence_of w) t cs = ?pre @ t # ?post"
    by (rule insort_key_split)
  show ?thesis
  proof (cases "?pre = []")
    case True
    with pre have mfc: "m = fc" by simp
    have rd: "read_slot w fc ?sl = Some m" using True mfc by (simp add: read_slot_def)
    have res: "ensure_next_candidate w t fc = Some (?w1, Ptr t)"
      using t tn loop rd True by (simp add: ensure_next_candidate_def write_slot_def)
    have fr: "same_frame w ?w1"
      using t by (simp add: same_frame_def core_upd_next)
    have chn: "chain (heap ?w1) (Ptr t) (insort_key (sequence_of w) t cs)"
      using post1 True by (simp add: ins chain_def)
    have nn: "\<forall>n \<in> set (t # cs). \<exists>nx. heap ?w1 n = Some nx \<and> next_candidate nx \<noteq> Null"
    proof
      fix n assume n: "n \<in> set (t # cs)"
      show "\<exists>nx. heap ?w1 n = Some nx \<and> next_candidate nx \<noteq> Null"
      proof (cases "n = t")
        case True
        then show ?thesis using m by simp
      next
        case False
        with n have "n \<in> set (insort_key (sequence_of w) t cs)" by (simp add: set_insort_key)
        with chn False obtain k where "n \<in> set ?post" by (auto simp: ins \<open>?pre = []\<close>)
        then obtain i where i: "i < length ?post" "?post ! i = n" by (auto simp: in_set_conv_nth)
        have "?post = take i ?post @ n # drop (Suc i) ?post"
          using i by (metis id_take_nth_drop)
        with post1 have "path ?h1 m (take i ?post @ n # drop (Suc i) ?post) TRANSACTION_NONE"
          by simp
        then obtain m' where "path ?h1 m' (n # drop (Suc i) ?post) TRANSACTION_NONE"
          by (auto simp: path_append)
        then obtain nx where "?h1 n = Some nx" "path ?h1 (next_candidate nx) (drop (Suc i) ?post) TRANSACTION_NONE"
          by (auto split: option.splits)
        then show ?thesis using path_to_sentinel_nonnull by auto
      qed
    qed
    show ?thesis
      using res fr chn nn by (intro exI[of _ ?w1] exI[of _ "Ptr t"]) auto
  next
    case False
    let ?p = "last ?pre"
    from False have pre_snoc: "?pre = butlast ?pre @ [?p]" by simp
    with pre have "path (heap w) fc (butlast ?pre @ [?p]) m" by simp
    then obtain px where pb: "path (heap w) fc (butlast ?pre) (Ptr ?p)"
      and px: "heap w ?p = Some px" and pxn: "next_candidate px = m"
      by (auto simp: path_snoc)
    have ppre: "?p \<in> set ?pre" using False by simp
    have pt: "?p \<noteq> t" using ppre tpre by metis
    have pnb: "?p \<notin> set (butlast ?pre)"
      using dpp(1) False by (rule last_notin_butlast)
    have pcs: "?p \<in> set cs" using ppre by (meson set_takeWhileD)
    have tnb: "t \<notin> set (butlast ?pre)" using tpre by (meson in_set_butlastD)
    have ppost: "?p \<notin> set ?post" using dpp(3) ppre by blast
    have rd: "read_slot w fc ?sl = Some m" using False px pxn by (simp add: read_slot_def)
    let ?h2 = "?h1(?p \<mapsto> px\<lparr>next_candidate := Ptr t\<rparr>)"
    let ?w2 = "w\<lparr>heap := ?h2\<rparr>"
    have res: "ensure_next_candidate w t fc = Some (?w2, fc)"
      using t tn loop rd False px pt by (simp add: ensure_next_candidate_def write_slot_def)
    have "core ?h2 = core ?h1"
      using px pt by (intro core_upd_next) simp
    then have fr: "same_frame w ?w2"
      using t by (simp add: same_frame_def core_upd_next)
    have pb2: "path ?h2 fc (butlast ?pre) (Ptr ?p)"
      using pb pnb tnb by (simp add: path_upd_notin)
    have post2: "path ?h2 m ?post TRANSACTION_NONE"
      using post1 ppost by (simp add: path_upd_notin)
    have "path ?h2 fc (butlast ?pre @ [?p] @ t # ?post) TRANSACTION_NONE"
      using pb2 post2 pt by (auto simp: path_append)
    then have chn: "chain (heap ?w2) fc (insort_key (sequence_of w) t cs)"
      using pre_snoc by (simp add: ins chain_def) (metis append.assoc append_Cons append_Nil)
    have nn: "\<forall>n \<in> set (t # cs). \<exists>nx. heap ?w2 n = Some nx \<and> next_candidate nx \<noteq> Null"
    proof
      fix n assume n: "n \<in> set (t # cs)"
      show "\<exists>nx. heap ?w2 n = Some nx \<and> next_candidate nx \<noteq> Null"
      proof (cases "n = t \<or> n = ?p")
        case True
        then show ?thesis using m pt by auto
      next
        case False
        with n have ncs: "n \<in> set cs" by simp
        then obtain i where i: "i < length cs" "cs ! i = n" by (auto simp: in_set_conv_nth)
        have "cs = take i cs @ n # drop (Suc i) cs"
          using i by (metis id_take_nth_drop)
        with ch have "path (heap w) fc (take i cs @ n # drop (Suc i) cs) TRANSACTION_NONE"
          by (simp add: chain_def)
        then obtain m' where "path (heap w) m' (n # drop (Suc i) cs) TRANSACTION_NONE"
          by (auto simp: path_append)
        then obtain nx where "heap w n = Some nx"
          "path (heap w) (next_candidate nx) (drop (Suc i) cs) TRANSACTION_NONE"
          by (auto split: option.splits)
        then show ?thesis using path_to_sentinel_nonnull False by auto
      qed
    qed
    have oth: "\<forall>n. n \<notin> set (t # cs) \<longrightarrow> heap ?w2 n = heap w n"
      using pcs by auto
    show ?thesis
      using res fr chn nn oth by (intro exI[of _ ?w2] exI[of _ fc]) blast
  qed
qed

lemma dropWhile_neq_split:
  "t \<notin> set pre \<Longrightarrow> dropWhile (\<lambda>n. n \<noteq> t) (pre @ t # post) = t # post"
  by (induction pre) auto

lemma first_of_None [simp]: "(first_of xs = None) = (xs = [])"
  by (cases xs) auto

lemma last_of_None [simp]: "(last_of xs = None) = (xs = [])"
  by (induction xs rule: last_of.induct) auto

lemma last_of_last: "xs \<noteq> [] \<Longrightarrow> last_of xs = Some (last xs)"
  by (induction xs rule: last_of.induct) auto

lemma first_of_hd: "xs \<noteq> [] \<Longrightarrow> first_of xs = Some (hd xs)"
  by (cases xs) auto

lemma last_of_Cons: "last_of (a # xs) = (if xs = [] then Some a else last_of xs)"
  by (cases xs) auto

lemma last_of_snoc [simp]: "last_of (xs @ [a]) = Some a"
  by (simp add: last_of_last)

lemma first_of_append: "first_of (xs @ ys) = (if xs = [] then first_of ys else first_of xs)"
  by (cases xs) auto

lemma first_of_in_set: "first_of xs = Some a \<Longrightarrow> a \<in> set xs"
  by (cases xs) auto

lemma last_of_in_set: "last_of xs = Some a \<Longrightarrow> a \<in> set xs"
  by (cases "xs = []") (auto simp: last_of_last)

lemma last_is_head_single:
  "distinct (t # rest) \<Longrightarrow> last_of (t # rest) = Some t \<Longrightarrow> rest = []"
  by (cases "rest = []") (auto simp: last_of_Cons last_of_last)

lemma filter_split_at_first:
  assumes "distinct q" and "first_of (filter P q) = Some t"
  shows "filter P q = t # filter P (after t q)"
    and "filter P (remove1 t q) = filter P (after t q)"
    and "t \<in> set q" and "P t"
proof -
  from assms(2) have tf: "t \<in> set (filter P q)" by (rule first_of_in_set)
  then show tq: "t \<in> set q" and pt: "P t" by auto
  from tq obtain pre post where q: "q = pre @ t # post" and tpre: "t \<notin> set pre"
    by (auto dest: split_list_first)
  have dw: "dropWhile (\<lambda>n. n \<noteq> t) q = t # post"
    using q tpre by (simp add: dropWhile_neq_split)
  have "filter P pre = []"
  proof (rule ccontr)
    assume ne: "filter P pre \<noteq> []"
    then have "first_of (filter P q) = Some (hd (filter P pre))"
      by (simp add: q first_of_append first_of_hd)
    with assms(2) have "t = hd (filter P pre)" by simp
    with ne have "t \<in> set (filter P pre)" by (metis hd_in_set)
    with tpre show False by simp
  qed
  then show "filter P q = t # filter P (after t q)"
    using pt by (simp add: q after_def dw[unfolded q])
  have "remove1 t q = pre @ post"
    using q tpre by (simp add: remove1_append)
  then show "filter P (remove1 t q) = filter P (after t q)"
    using \<open>filter P pre = []\<close> by (simp add: after_def dw)
qed

lemma set_tl_subset: "set (tl xs) \<subseteq> set xs"
  by (cases xs) auto

lemma after_subset: "set (after t q) \<subseteq> set q"
  using set_tl_subset[of "dropWhile (\<lambda>n. n \<noteq> t) q"] set_dropWhileD[of _ "\<lambda>n. n \<noteq> t" q]
  by (auto simp: after_def)

lemma after_notin: "distinct q \<Longrightarrow> t \<notin> set (after t q)"
proof (cases "t \<in> set q")
  case True
  assume d: "distinct q"
  from True obtain pre post where q: "q = pre @ t # post" and tpre: "t \<notin> set pre"
    by (auto dest: split_list_first)
  have "dropWhile (\<lambda>n. n \<noteq> t) q = t # post"
    using q tpre by (simp add: dropWhile_neq_split)
  then show ?thesis using d q by (simp add: after_def)
next
  case False
  then show ?thesis using after_subset by blast
qed

lemma filter_remove1_other:
  "\<not> P t \<Longrightarrow> filter P (remove1 t q) = filter P q"
  by (induction q) auto

lemma touches_core: "core (heap w') = core (heap w) \<Longrightarrow> touches w' s n = touches w s n"
  using keys_of_core[of w' w n] by (simp add: touches_def)

lemma touches_map_of:
  "heap w n = Some nx \<Longrightarrow> touches w s n = (map_of (entries nx) s \<noteq> None)"
  by (simp add: touches_def keys_of_def map_of_eq_None_iff)

text \<open>The scan for the next transaction finds the head of what remains of the chain.\<close>

lemma find_next_finds:
  assumes "\<forall>n \<in> set ns. heap w n \<noteq> None"
    and "\<forall>l. last_committed (surfaces w s) = Some l \<and> l \<in> set ns \<longrightarrow> touches w s l"
  shows "find_next w s ns = Some (first_of (filter (touches w s) ns))"
  using assms
proof (induction ns)
  case Nil
  then show ?case by simp
next
  case (Cons n ns)
  from Cons.prems(1) obtain nx where nx: "heap w n = Some nx" by auto
  show ?case
  proof (cases "touches w s n")
    case True
    then show ?thesis using nx by (auto simp: touches_map_of[OF nx])
  next
    case False
    with Cons.prems(2) have "last_committed (surfaces w s) \<noteq> Some n" by auto
    moreover have "find_next w s ns = Some (first_of (filter (touches w s) ns))"
      using Cons by auto
    ultimately show ?thesis using False nx by (auto simp: touches_map_of[OF nx])
  qed
qed

lemma candidates_ok_cong:
  "heap w' = heap w \<Longrightarrow> committed_queue w' = committed_queue w \<Longrightarrow>
   candidates_ok w' fc cs = candidates_ok w fc cs"
  by (simp add: candidates_ok_def sequence_of_def cong: map_cong)

lemma candidates_ok_live: "candidates_ok w fc cs \<Longrightarrow> n \<in> set cs \<Longrightarrow> heap w n \<noteq> None"
  unfolding candidates_ok_def chain_def by (blast dest: path_live)

lemma ensure_next_candidate_candidates:
  assumes ok: "candidates_ok w fc cs" and nq: "n \<in> set (committed_queue w)"
    and nx: "heap w n = Some nx"
  shows "\<exists>w' fc' cs'. ensure_next_candidate w n fc = Some (w', fc') \<and> same_frame w w' \<and>
           candidates_ok w' fc' cs' \<and> set cs' = insert n (set cs)"
proof (cases "n \<in> set cs")
  case True
  with ok nx have "next_candidate nx \<noteq> Null" by (auto simp: candidates_ok_def)
  with nx have "ensure_next_candidate w n fc = Some (w, fc)"
    by (rule ensure_next_candidate_present)
  with ok True show ?thesis
    by (intro exI[of _ w] exI[of _ fc] exI[of _ cs]) (auto simp: same_frame_refl)
next
  case False
  with ok nx have nn: "next_candidate nx = Null" by (auto simp: candidates_ok_def)
  from ok have ch: "chain (heap w) fc cs" and d: "distinct cs"
    and srt: "sorted (map (sequence_of w) cs)" and sub: "set cs \<subseteq> set (committed_queue w)"
    and iff: "\<forall>m mx. heap w m = Some mx \<longrightarrow> (next_candidate mx \<noteq> Null) = (m \<in> set cs)"
    by (auto simp: candidates_ok_def)
  from ensure_next_candidate_inserts[OF ch d nx nn False] obtain w' fc' where
    r: "ensure_next_candidate w n fc = Some (w', fc')" and fr: "same_frame w w'"
    and ch': "chain (heap w') fc' (insort_key (sequence_of w) n cs)"
    and oth: "\<forall>m. m \<notin> set (n # cs) \<longrightarrow> heap w' m = heap w m"
    and mem: "\<forall>m \<in> set (n # cs). \<exists>mx. heap w' m = Some mx \<and> next_candidate mx \<noteq> Null"
    by blast
  let ?cs' = "insort_key (sequence_of w) n cs"
  have seq: "sequence_of w' = sequence_of w"
    using fr sequence_of_core[of w' w] by (auto simp: same_frame_def fun_eq_iff)
  have "sorted (map (sequence_of w) ?cs')" using srt by (rule sorted_insort_key[THEN iffD2])
  moreover have "distinct ?cs'" using d False by (simp add: distinct_insort)
  moreover have "set ?cs' = insert n (set cs)" by (simp add: set_insort_key)
  moreover have "\<forall>m mx. heap w' m = Some mx \<longrightarrow> (next_candidate mx \<noteq> Null) = (m \<in> set ?cs')"
  proof (intro allI impI)
    fix m mx assume m: "heap w' m = Some mx"
    show "(next_candidate mx \<noteq> Null) = (m \<in> set ?cs')"
    proof (cases "m \<in> set (n # cs)")
      case True
      with mem m show ?thesis by (auto simp: set_insort_key)
    next
      case False
      with oth m have "heap w m = Some mx" by simp
      with iff False show ?thesis by (auto simp: set_insort_key)
    qed
  qed
  ultimately have "candidates_ok w' fc' ?cs'"
    using ch' sub nq fr by (auto simp: candidates_ok_def seq same_frame_def)
  with r fr show ?thesis
    by (intro exI[of _ w'] exI[of _ fc'] exI[of _ ?cs']) (simp add: set_insort_key)
qed

lemma pending_skip:
  "pending (EvSubPos s x y # tr) = pending tr"
  "pending (EvApplyState s st # tr) = pending tr"
  "pending (EvSyncChildStates s # tr) = pending tr"
  by simp_all

text \<open>What writing the position and applying the snapshot of one entry leaves unchanged.\<close>

lemma pre_apply_frame:
  fixes w s entry
  defines "w1 \<equiv> meta_wayland_transaction_apply_subsurface_position w s entry"
  defines "w2 \<equiv> (case entry_state entry of Some st \<Rightarrow> log (EvApplyState s st) w1 | None \<Rightarrow> w1)"
  shows "heap w2 = heap w" "committed_queue w2 = committed_queue w"
    "toplevel w2 = toplevel w" "sequence_counter w2 = sequence_counter w"
    "first_committed (surfaces w2 u) = first_committed (surfaces w u)"
    "last_committed (surfaces w2 u) = last_committed (surfaces w u)"
    "sub_parent (surfaces w2 u) = sub_parent (surfaces w u)"
    "pending (trace w2) = pending (trace w)"
    "applications_ordered (trace w2) = applications_ordered (trace w)"
  unfolding w2_def w1_def
  by (auto simp: meta_wayland_transaction_apply_subsurface_position_def log_def
      split: option.splits)

lemma apply_surface_keeps_pass:
  assumes q: "queue_ok w0" and c: "chains_ok w0" and tx: "heap w0 t = Some tx"
    and ready: "\<forall>s \<in> set (keys_of w0 t). first_committed (surfaces w0 s) = Some t"
    and s: "s \<in> set (keys_of w0 t)" and sD: "s \<notin> D"
    and inv: "pass_inv w0 t D w fc"
  shows "\<exists>w' fc' e. apply_surface t s (w, fc, states) = Some (w', fc', states @ [entry_state e]) \<and>
           map_of (entries tx) s = Some e \<and> pass_inv w0 t (insert s D) w' fc'"
proof -
  let ?q = "committed_queue w0"
  from inv have core: "core (heap w) = core (heap w0)" and qe: "committed_queue w = ?q"
    and pen: "pending (trace w) = pending (trace w0)"
    and ord: "applications_ordered (trace w) = applications_ordered (trace w0)"
    and sf: "\<And>u. first_committed (surfaces w u) =
             (if u \<in> D then first_of (filter (touches w0 u) (remove1 t ?q))
              else first_committed (surfaces w0 u))"
            "\<And>u. last_committed (surfaces w u) =
             (if u \<in> D then last_of (filter (touches w0 u) (remove1 t ?q))
              else last_committed (surfaces w0 u))"
    by (auto simp: pass_inv_def)
  from inv obtain cs where cs: "candidates_ok w fc cs" and tcs: "t \<notin> set cs"
    by (auto simp: pass_inv_def)
  from core_eqD(2)[OF core tx] obtain tx' where tx': "heap w t = Some tx'"
    and ent: "entries tx' = entries tx" by blast
  from s tx obtain e where e: "map_of (entries tx) s = Some e"
    by (cases "map_of (entries tx) s") (auto simp: keys_of_def map_of_eq_None_iff)
  define w1 where "w1 = meta_wayland_transaction_apply_subsurface_position w s e"
  define w2 where "w2 = (case entry_state e of Some st \<Rightarrow> log (EvApplyState s st) w1 | None \<Rightarrow> w1)"
  note fr = pre_apply_frame[of w s e, folded w1_def, folded w2_def]
  have core2: "core (heap w2) = core (heap w0)" using core fr(1) by simp
  from q have dq: "distinct ?q" by (simp add: queue_ok_def)
  \<comment> \<open>the commit chain of the surface starts with the transaction\<close>
  from ready s have "first_committed (surfaces w0 s) = Some t" by blast
  with c have fo: "first_of (filter (touches w0 s) ?q) = Some t"
    by (simp add: chains_ok_def surface_chain_def)
  note split = filter_split_at_first[OF dq fo]
  let ?rest = "filter (touches w0 s) (after t ?q)"
  have lc: "last_committed (surfaces w2 s) = last_of (t # ?rest)"
    using c sD by (simp add: fr(6) sf(2) chains_ok_def surface_chain_def split(1))
  have dch: "distinct (t # ?rest)"
    using dq split(1) by (metis distinct_filter)
  have step: "apply_surface t s (w, fc, states) =
      (if last_committed (surfaces w2 s) = Some t
       then Some (w2\<lparr>surfaces := (surfaces w2)
                    (s := (surfaces w2 s)\<lparr>first_committed := None, last_committed := None\<rparr>)\<rparr>,
                  fc, states @ [entry_state e])
       else (case find_next_transaction_for_surface w2 t s of
               None \<Rightarrow> None
             | Some None \<Rightarrow> Some (w2, fc, states @ [entry_state e])
             | Some (Some next_transaction) \<Rightarrow>
                 (case ensure_next_candidate
                         (w2\<lparr>surfaces := (surfaces w2)
                            (s := (surfaces w2 s)\<lparr>first_committed := Some next_transaction\<rparr>)\<rparr>)
                         next_transaction fc of
                    None \<Rightarrow> None
                  | Some (w3, fc') \<Rightarrow> Some (w3, fc', states @ [entry_state e]))))"
    unfolding w2_def w1_def using tx' e ent
    by (simp add: apply_surface_def meta_wayland_transaction_get_entry_def Let_def)
  show ?thesis
  proof (cases "last_committed (surfaces w2 s) = Some t")
    case True
    with lc dch have rest: "?rest = []" by (metis last_is_head_single)
    let ?w' = "w2\<lparr>surfaces := (surfaces w2)
                    (s := (surfaces w2 s)\<lparr>first_committed := None, last_committed := None\<rparr>)\<rparr>"
    have r: "apply_surface t s (w, fc, states) = Some (?w', fc, states @ [entry_state e])"
      using step True by simp
    have "candidates_ok ?w' fc cs"
      using cs candidates_ok_cong[of ?w' w fc cs] fr(1,2) by simp
    moreover have "\<And>u. first_committed (surfaces ?w' u) =
             (if u \<in> insert s D then first_of (filter (touches w0 u) (remove1 t ?q))
              else first_committed (surfaces w0 u))"
      using sf(1) rest split(2) by (simp add: fr(5))
    moreover have "\<And>u. last_committed (surfaces ?w' u) =
             (if u \<in> insert s D then last_of (filter (touches w0 u) (remove1 t ?q))
              else last_committed (surfaces w0 u))"
      using sf(2) rest split(2) by (simp add: fr(6))
    moreover have "pending (trace ?w') = pending (trace w0)"
      "applications_ordered (trace ?w') = applications_ordered (trace w0)"
      "core (heap ?w') = core (heap w0)" "committed_queue ?w' = ?q"
      using fr(2,8,9) pen ord core2 qe by simp_all
    ultimately have "pass_inv w0 t (insert s D) ?w' fc"
      unfolding pass_inv_def using tcs by blast
    with r e show ?thesis by blast
  next
    case False
    with lc have rne: "?rest \<noteq> []" by auto
    then obtain n where n: "first_of ?rest = Some n" by (cases ?rest) auto
    then have nrest: "n \<in> set ?rest" by (rule first_of_in_set)
    then have naf: "n \<in> set (after t ?q)" by simp
    with after_subset have nq: "n \<in> set ?q" by blast
    from naf after_notin[OF dq] have nt: "n \<noteq> t" by metis
    have live: "\<forall>m \<in> set (after t ?q). heap w2 m \<noteq> None"
    proof
      fix m assume "m \<in> set (after t ?q)"
      with after_subset have "m \<in> set ?q" by blast
      with q have "heap w0 m \<noteq> None" by (auto simp: queue_ok_def)
      with core_eqD(1)[OF core2, of m] show "heap w2 m \<noteq> None" by simp
    qed
    have lptr: "\<forall>l. last_committed (surfaces w2 s) = Some l \<and> l \<in> set (after t ?q) \<longrightarrow> touches w2 s l"
    proof (intro allI impI)
      fix l assume "last_committed (surfaces w2 s) = Some l \<and> l \<in> set (after t ?q)"
      with lc rne have "last_of ?rest = Some l" by (simp add: last_of_Cons)
      then have "l \<in> set ?rest" by (rule last_of_in_set)
      then have "touches w0 s l" by simp
      then show "touches w2 s l" using touches_core[OF core2] by simp
    qed
    have "filter (touches w2 s) (after t ?q) = ?rest"
      using touches_core[OF core2] by (intro filter_cong) auto
    with find_next_finds[OF live lptr] n
    have fn: "find_next_transaction_for_surface w2 t s = Some (Some n)"
      using fr(2) qe by (simp add: find_next_transaction_for_surface_def after_def)
    let ?w2' = "w2\<lparr>surfaces := (surfaces w2)(s := (surfaces w2 s)\<lparr>first_committed := Some n\<rparr>)\<rparr>"
    have cs2: "candidates_ok ?w2' fc cs"
      using cs candidates_ok_cong[of ?w2' w fc cs] fr(1,2) by simp
    from q nq obtain nx0 where "heap w0 n = Some nx0" by (auto simp: queue_ok_def)
    with core_eqD(1)[OF core2, of n] obtain nx where nx: "heap ?w2' n = Some nx"
      by (cases "heap w2 n") auto
    have nq2: "n \<in> set (committed_queue ?w2')" using nq fr(2) qe by simp
    from ensure_next_candidate_candidates[OF cs2 nq2 nx] obtain w3 fc' cs' where
      en: "ensure_next_candidate ?w2' n fc = Some (w3, fc')" and fr3: "same_frame ?w2' w3"
      and cs3: "candidates_ok w3 fc' cs'" and set3: "set cs' = insert n (set cs)"
      by blast
    have r: "apply_surface t s (w, fc, states) = Some (w3, fc', states @ [entry_state e])"
      using step False fn en by simp
    have tcs3: "t \<notin> set cs'" using set3 tcs nt by auto
    have s3: "surfaces w3 = (surfaces w2)(s := (surfaces w2 s)\<lparr>first_committed := Some n\<rparr>)"
      "committed_queue w3 = ?q" "trace w3 = trace w2" "core (heap w3) = core (heap w0)"
      using fr3 fr(1,2) qe core by (auto simp: same_frame_def)
    have lr: "last_committed (surfaces w2 s) = last_of ?rest"
      using lc rne by (simp add: last_of_Cons)
    have "\<And>u. first_committed (surfaces w3 u) =
             (if u \<in> insert s D then first_of (filter (touches w0 u) (remove1 t ?q))
              else first_committed (surfaces w0 u))"
    proof -
      fix u
      show "first_committed (surfaces w3 u) =
             (if u \<in> insert s D then first_of (filter (touches w0 u) (remove1 t ?q))
              else first_committed (surfaces w0 u))"
      proof (cases "u = s")
        case True
        then show ?thesis using n split(2) by (simp add: s3(1))
      next
        case False
        then show ?thesis using sf(1)[of u] by (simp add: s3(1) fr(5))
      qed
    qed
    moreover have "\<And>u. last_committed (surfaces w3 u) =
             (if u \<in> insert s D then last_of (filter (touches w0 u) (remove1 t ?q))
              else last_committed (surfaces w0 u))"
    proof -
      fix u
      show "last_committed (surfaces w3 u) =
             (if u \<in> insert s D then last_of (filter (touches w0 u) (remove1 t ?q))
              else last_committed (surfaces w0 u))"
      proof (cases "u = s")
        case True
        then show ?thesis using lr split(2) by (simp add: s3(1))
      next
        case False
        then show ?thesis using sf(2)[of u] by (simp add: s3(1) fr(6))
      qed
    qed
    moreover have "pending (trace w3) = pending (trace w0)"
      "applications_ordered (trace w3) = applications_ordered (trace w0)"
      using fr(8,9) pen ord s3(3) by simp_all
    ultimately have "pass_inv w0 t (insert s D) w3 fc'"
      unfolding pass_inv_def using cs3 tcs3 s3(2,4) by blast
    with r e show ?thesis by blast
  qed
qed

lemma apply_surfaces_keeps_pass:
  assumes q: "queue_ok w0" and c: "chains_ok w0" and tx: "heap w0 t = Some tx"
    and ready: "\<forall>s \<in> set (keys_of w0 t). first_committed (surfaces w0 s) = Some t"
  shows "set ss \<subseteq> set (keys_of w0 t) \<Longrightarrow> distinct ss \<Longrightarrow> set ss \<inter> D = {} \<Longrightarrow>
         pass_inv w0 t D w fc \<Longrightarrow>
         \<exists>w' fc' states'. apply_surfaces t ss (w, fc, states) = Some (w', fc', states') \<and>
            pass_inv w0 t (D \<union> set ss) w' fc'"
proof (induction ss arbitrary: D w fc states)
  case Nil
  then show ?case by simp
next
  case (Cons s ss)
  from Cons.prems have s: "s \<in> set (keys_of w0 t)" and sD: "s \<notin> D" by auto
  from apply_surface_keeps_pass[OF q c tx ready s sD Cons.prems(4), of states]
  obtain w1 fc1 and e :: transaction_entry where
    r1: "apply_surface t s (w, fc, states) = Some (w1, fc1, states @ [entry_state e])"
    and p1: "pass_inv w0 t (insert s D) w1 fc1"
    by blast
  from Cons.prems have a: "set ss \<subseteq> set (keys_of w0 t)" "distinct ss" "set ss \<inter> insert s D = {}"
    by auto
  from Cons.IH[OF a p1, of "states @ [entry_state e]"] obtain w' fc' states' where
    r2: "apply_surfaces t ss (w1, fc1, states @ [entry_state e]) = Some (w', fc', states')"
    and p2: "pass_inv w0 t (insert s D \<union> set ss) w' fc'"
    by blast
  have r: "apply_surfaces t (s # ss) (w, fc, states) = Some (w', fc', states')"
    using r1 r2 by simp
  have eq: "insert s D \<union> set ss = D \<union> set (s # ss)" by auto
  show ?case using r p2 unfolding eq by blast
qed

subsection \<open>The sort returns a permutation\<close>

lemma qsort_insert_set:
  "qsort_insert cmp a bs = Some cs \<Longrightarrow>
   set cs = insert a (set bs) \<and> length cs = Suc (length bs) \<and> (a \<notin> set bs \<and> distinct bs \<longrightarrow> distinct cs)"
proof (induction bs arbitrary: cs)
  case Nil
  then show ?case by auto
next
  case (Cons b bs)
  show ?case
  proof (cases "cmp a b")
    case None
    with Cons.prems show ?thesis by simp
  next
    case (Some r)
    show ?thesis
    proof (cases "r \<le> 0")
      case True
      with Some Cons.prems show ?thesis by auto
    next
      case False
      with Some Cons.prems obtain ds where ds: "qsort_insert cmp a bs = Some ds" and cs: "cs = b # ds"
        by auto
      from Cons.IH[OF ds] show ?thesis using cs by auto
    qed
  qed
qed

lemma qsort_set:
  "qsort cmp as = Some bs \<Longrightarrow> set bs = set as \<and> length bs = length as \<and> (distinct as \<longrightarrow> distinct bs)"
proof (induction as arbitrary: bs)
  case Nil
  then show ?case by simp
next
  case (Cons a as)
  from Cons.prems obtain cs where cs: "qsort cmp as = Some cs" and bs: "qsort_insert cmp a cs = Some bs"
    by (auto split: option.splits)
  from Cons.IH[OF cs] qsort_insert_set[OF bs] show ?case by auto
qed

subsection \<open>The second loop and the order check\<close>

lemma fold_sync_frame:
  fixes w :: world
  defines "f \<equiv> (\<lambda>(surface, st) w. if st \<noteq> None then log (EvSyncChildStates surface) w else w)"
  shows "heap (fold f ps w) = heap w \<and> committed_queue (fold f ps w) = committed_queue w \<and>
         surfaces (fold f ps w) = surfaces w \<and> toplevel (fold f ps w) = toplevel w \<and>
         sequence_counter (fold f ps w) = sequence_counter w \<and>
         pending (trace (fold f ps w)) = pending (trace w) \<and>
         applications_ordered (trace (fold f ps w)) = applications_ordered (trace w)"
proof (induction ps arbitrary: w)
  case Nil
  show ?case by simp
next
  case (Cons p ps)
  obtain surface st where p: "p = (surface, st)" by (cases p)
  have "f p w = w \<or> f p w = log (EvSyncChildStates surface) w"
    by (simp add: f_def p)
  then show ?case
    using Cons[of "f p w"] by (auto simp: log_def)
qed

lemma sync_child_states_frame:
  "heap (sync_child_states surfs states w) = heap w"
  "committed_queue (sync_child_states surfs states w) = committed_queue w"
  "surfaces (sync_child_states surfs states w) = surfaces w"
  "toplevel (sync_child_states surfs states w) = toplevel w"
  "sequence_counter (sync_child_states surfs states w) = sequence_counter w"
  "pending (trace (sync_child_states surfs states w)) = pending (trace w)"
  "applications_ordered (trace (sync_child_states surfs states w)) = applications_ordered (trace w)"
  using fold_sync_frame[of "rev (zip surfs states)" w]
  by (simp_all add: sync_child_states_def)

lemma in_turn_absent: "t \<notin> fst ` set ps \<Longrightarrow> in_turn t ps"
  by (induction ps) force+

lemma in_turn_queue:
  assumes "\<forall>n \<in> set (takeWhile (\<lambda>n. n \<noteq> t) q). set (ks n) \<inter> set (ks t) = {}"
    and "distinct q"
  shows "in_turn t (map (\<lambda>n. (n, ks n)) q)"
  using assms
proof (induction q)
  case Nil
  then show ?case by simp
next
  case (Cons a q)
  show ?case
  proof (cases "a = t")
    case True
    with Cons.prems(2) have tq: "t \<notin> fst ` set (map (\<lambda>n. (n, ks n)) q)" by (auto simp: image_iff)
    then have "filter (\<lambda>q. fst q = t) (map (\<lambda>n. (n, ks n)) q) = []"
      unfolding filter_empty_conv by force
    with in_turn_absent[OF tq] show ?thesis by simp
  next
    case False
    with Cons have "in_turn t (map (\<lambda>n. (n, ks n)) q)" and "set (ks a) \<inter> set (ks t) = {}"
      by auto
    then show ?thesis by auto
  qed
qed

lemma filter_before_first:
  assumes "first_of (filter P q) = Some t"
  shows "filter P (takeWhile (\<lambda>n. n \<noteq> t) q) = []"
  using assms
proof (induction q)
  case Nil
  then show ?case by simp
next
  case (Cons a q)
  then show ?case by (cases "P a") auto
qed

lemma filter_neq_remove1: "distinct q \<Longrightarrow> filter (\<lambda>n. n \<noteq> t) q = remove1 t q"
  by (induction q) (auto simp: filter_id_conv)

lemma keys_of_live: "heap w n = Some nx \<Longrightarrow> keys_of w n = map fst (entries nx)"
  by (simp add: keys_of_def)

lemma removed_other:
  assumes "removed w0 w1 t w'" and "n \<noteq> t"
  shows "keys_of w' n = keys_of w0 n" and "sequence_of w' n = sequence_of w1 n"
    and "touches w' s n = touches w0 s n" and "heap w' n = heap w1 n"
proof -
  from assms show h: "heap w' n = heap w1 n" by (simp add: removed_def)
  from assms have core: "core (heap w1) = core (heap w0)" by (simp add: removed_def)
  show k: "keys_of w' n = keys_of w0 n"
    using keys_of_core[OF core, of n] h by (simp add: keys_of_def)
  show "sequence_of w' n = sequence_of w1 n" using h by (simp add: sequence_of_def)
  show "touches w' s n = touches w0 s n" using k by (simp add: touches_def)
qed

lemma removed_queue_ok:
  assumes q: "queue_ok w0" and r: "removed w0 w1 t w'"
  shows "queue_ok w'"
proof -
  let ?q = "committed_queue w0"
  from q have dq: "distinct ?q" by (simp add: queue_ok_def)
  from r have core: "core (heap w1) = core (heap w0)"
    and hw': "heap w' = (heap w1)(t := None)" and qw': "committed_queue w' = remove1 t ?q"
    by (simp_all add: removed_def)
  have a: "distinct (committed_queue w')" using dq by (simp add: qw')
  have b: "\<exists>nx. heap w' n = Some nx \<and> node_data nx" if "n \<in> set (committed_queue w')" for n
  proof -
    from that dq have nt: "n \<noteq> t" and nq: "n \<in> set ?q" by (auto simp: qw')
    from q nq obtain nx0 where nx0: "heap w0 n = Some nx0" "node_data nx0"
      by (auto simp: queue_ok_def)
    from core_eqD(2)[OF core nx0(1)] obtain nx where "heap w1 n = Some nx" "node_data nx = node_data nx0"
      by blast
    with nx0(2) nt show ?thesis by (simp add: hw')
  qed
  have c: "distinct (map fst (entries nx)) \<and> (node_data nx \<longrightarrow> n \<in> set (committed_queue w'))"
    if "heap w' n = Some nx" for n nx
  proof -
    from that have nt: "n \<noteq> t" by (auto simp: hw' split: if_splits)
    with that have h1: "heap w1 n = Some nx" by (simp add: hw')
    from core_eqD(1)[OF core, of n] h1 obtain nx0 where nx0: "heap w0 n = Some nx0"
      by (cases "heap w0 n") auto
    from core_eqD(2)[OF core nx0] h1 have same: "entries nx = entries nx0" "node_data nx = node_data nx0"
      by auto
    from q nx0 have "distinct (map fst (entries nx0))" "node_data nx0 \<longrightarrow> n \<in> set ?q"
      by (auto simp: queue_ok_def)
    with same nt show ?thesis by (simp add: qw')
  qed
  show ?thesis unfolding queue_ok_def using a b c by blast
qed

lemma removed_surface_chain:
  assumes q: "queue_ok w0" and r: "removed w0 w1 t w'"
  shows "surface_chain w' s = filter (touches w0 s) (remove1 t (committed_queue w0))"
proof -
  from q have dq: "distinct (committed_queue w0)" by (simp add: queue_ok_def)
  from r have qw': "committed_queue w' = remove1 t (committed_queue w0)" by (simp add: removed_def)
  have "filter (touches w' s) (remove1 t (committed_queue w0)) =
        filter (touches w0 s) (remove1 t (committed_queue w0))"
  proof (rule filter_cong[OF refl])
    fix n assume "n \<in> set (remove1 t (committed_queue w0))"
    with dq have "n \<noteq> t" by auto
    then show "touches w' s n = touches w0 s n" by (rule removed_other(3)[OF r])
  qed
  then show ?thesis by (simp add: surface_chain_def qw')
qed

lemma removed_candidates_ok:
  assumes cs: "candidates_ok w1 fc cs" and tcs: "t \<notin> set cs" and r: "removed w0 w1 t w'"
  shows "candidates_ok w' fc cs"
proof -
  from r have hw': "heap w' = (heap w1)(t := None)"
    and qw': "committed_queue w' = remove1 t (committed_queue w0)"
    and qe: "committed_queue w1 = committed_queue w0"
    by (simp_all add: removed_def)
  from cs have ch: "chain (heap w1) fc cs" and d: "distinct cs"
    and srt: "sorted (map (sequence_of w1) cs)" and sub: "set cs \<subseteq> set (committed_queue w0)"
    and iff: "\<forall>m mx. heap w1 m = Some mx \<longrightarrow> (next_candidate mx \<noteq> Null) = (m \<in> set cs)"
    by (auto simp: candidates_ok_def qe)
  have 1: "chain (heap w') fc cs"
    using ch tcs by (simp add: chain_def hw' path_upd_notin)
  have sq: "map (sequence_of w') cs = map (sequence_of w1) cs"
  proof (rule map_cong[OF refl])
    fix n assume "n \<in> set cs"
    with tcs have "n \<noteq> t" by auto
    then show "sequence_of w' n = sequence_of w1 n" by (rule removed_other(2)[OF r])
  qed
  have 2: "sorted (map (sequence_of w') cs)" unfolding sq by (rule srt)
  have 3: "set cs \<subseteq> set (committed_queue w')"
  proof
    fix n assume n: "n \<in> set cs"
    with tcs have "n \<noteq> t" by auto
    with n sub show "n \<in> set (committed_queue w')" by (auto simp: qw' in_set_remove1)
  qed
  have 4: "\<forall>m mx. heap w' m = Some mx \<longrightarrow> (next_candidate mx \<noteq> Null) = (m \<in> set cs)"
  proof (intro allI impI)
    fix m mx assume "heap w' m = Some mx"
    then have "heap w1 m = Some mx" by (auto simp: hw' split: if_splits)
    with iff show "(next_candidate mx \<noteq> Null) = (m \<in> set cs)" by blast
  qed
  show ?thesis unfolding candidates_ok_def using 1 d 2 3 4 by blast
qed

lemma removed_pending:
  assumes q: "queue_ok w0" and r: "removed w0 w1 t w'"
  shows "filter (\<lambda>p. fst p \<noteq> t) (map (\<lambda>n. (n, keys_of w0 n)) (committed_queue w0)) =
         map (\<lambda>n. (n, keys_of w' n)) (committed_queue w')"
proof -
  let ?q = "committed_queue w0"
  from q have dq: "distinct ?q" by (simp add: queue_ok_def)
  from r have qw': "committed_queue w' = remove1 t ?q" by (simp add: removed_def)
  have "filter (\<lambda>p. fst p \<noteq> t) (map (\<lambda>n. (n, keys_of w0 n)) ?q) =
        map (\<lambda>n. (n, keys_of w0 n)) (filter (\<lambda>n. n \<noteq> t) ?q)"
    by (simp add: filter_map comp_def)
  also have "\<dots> = map (\<lambda>n. (n, keys_of w0 n)) (remove1 t ?q)"
    using dq by (simp add: filter_neq_remove1)
  also have "\<dots> = map (\<lambda>n. (n, keys_of w' n)) (remove1 t ?q)"
  proof (rule map_cong[OF refl])
    fix n assume "n \<in> set (remove1 t ?q)"
    with dq have "n \<noteq> t" by auto
    then show "(n, keys_of w0 n) = (n, keys_of w' n)" using removed_other(1)[OF r] by simp
  qed
  finally show ?thesis by (simp add: qw')
qed

lemma ready_first:
  assumes "has_unapplied_dependencies w t = Some False" and "heap w t = Some tx"
  shows "\<forall>s \<in> set (keys_of w t). first_committed (surfaces w s) = Some t"
  using assms
  by (auto simp: has_unapplied_dependencies_def keys_of_def list_ex_iff)

lemma ready_in_turn:
  assumes q: "queue_ok w" and c: "chains_ok w"
    and ready: "\<forall>s \<in> set (keys_of w t). first_committed (surfaces w s) = Some t"
  shows "in_turn t (map (\<lambda>n. (n, keys_of w n)) (committed_queue w))"
proof (rule in_turn_queue[rotated], (use q in \<open>simp add: queue_ok_def\<close>), rule ballI)
  fix n assume n: "n \<in> set (takeWhile (\<lambda>n. n \<noteq> t) (committed_queue w))"
  show "set (keys_of w n) \<inter> set (keys_of w t) = {}"
  proof (rule ccontr)
    assume "set (keys_of w n) \<inter> set (keys_of w t) \<noteq> {}"
    then obtain s where s: "s \<in> set (keys_of w n)" "s \<in> set (keys_of w t)" by blast
    with ready c have "first_of (filter (touches w s) (committed_queue w)) = Some t"
      by (simp add: chains_ok_def surface_chain_def)
    then have "filter (touches w s) (takeWhile (\<lambda>n. n \<noteq> t) (committed_queue w)) = []"
      by (rule filter_before_first)
    with n have "\<not> touches w s n" by (auto simp: filter_empty_conv)
    with s(1) show False by (simp add: touches_def)
  qed
qed

lemma apply_keeps_inv:
  assumes inv: "cascade_inv w fc cs" and tx: "heap w t = Some tx" and tcs: "t \<notin> set cs"
    and ready: "has_unapplied_dependencies w t = Some False"
    and res: "meta_wayland_transaction_apply w t fc = Some (w', fc')"
  shows "\<exists>cs'. cascade_inv w' fc' cs' \<and> committed_queue w' = remove1 t (committed_queue w)"
proof -
  from inv have q: "queue_ok w" and c: "chains_ok w" and cs: "candidates_ok w fc cs"
    and tm: "pending (trace w) = map (\<lambda>n. (n, keys_of w n)) (committed_queue w)"
            "applications_ordered (trace w)"
    by (simp_all add: cascade_inv_def trace_matches_def)
  define w0 where "w0 = log (EvApply t) w"
  have w0: "heap w0 = heap w" "committed_queue w0 = committed_queue w" "surfaces w0 = surfaces w"
    "trace w0 = EvApply t # trace w"
    by (simp_all add: w0_def log_def)
  have k0: "keys_of w0 = keys_of w" by (simp add: keys_of_def w0(1) fun_eq_iff)
  have q0: "queue_ok w0" using q by (simp add: queue_ok_def w0)
  have t0: "touches w0 = touches w" by (simp add: touches_def k0 fun_eq_iff)
  have c0: "chains_ok w0"
    using c by (simp add: chains_ok_def surface_chain_def t0 w0)
  have tx0: "heap w0 t = Some tx" using tx by (simp add: w0)
  have rd: "\<forall>s \<in> set (keys_of w t). first_committed (surfaces w s) = Some t"
    using ready tx by (rule ready_first)
  then have rd0: "\<forall>s \<in> set (keys_of w0 t). first_committed (surfaces w0 s) = Some t"
    by (simp add: k0 w0)
  have cs0: "candidates_ok w0 fc cs"
    using cs candidates_ok_cong[of w0 w fc cs] w0 by simp
  have p0: "pass_inv w0 t {} w0 fc"
    unfolding pass_inv_def using cs0 tcs by auto
  from res tx obtain surfs w1 fc1 states where
    srt: "qsort (meta_wayland_transaction_compare w0) (map fst (entries tx)) = Some surfs"
    and pass: "apply_surfaces t surfs (w0, fc, []) = Some (w1, fc1, states)"
    and free: "meta_wayland_transaction_free (sync_child_states surfs states w1) t = Some w'"
    and fc': "fc' = fc1"
    by (auto simp: meta_wayland_transaction_apply_def Let_def w0_def split: option.splits)
  have keys: "keys_of w0 t = map fst (entries tx)" using tx0 by (rule keys_of_live)
  from q0 tx0 have "distinct (map fst (entries tx))" by (auto simp: queue_ok_def)
  with qsort_set[OF srt] have ss: "set surfs = set (keys_of w0 t)" "distinct surfs"
    by (simp_all add: keys)
  from apply_surfaces_keeps_pass[OF q0 c0 tx0 rd0 _ ss(2) _ p0, of "[]"] ss(1) pass
  have p1: "pass_inv w0 t (set (keys_of w0 t)) w1 fc1" by auto
  let ?w2 = "sync_child_states surfs states w1"
  note fr = sync_child_states_frame[of surfs states w1]
  from p1 have core: "core (heap w1) = core (heap w0)" and qe: "committed_queue w1 = committed_queue w0"
    and pen: "pending (trace w1) = pending (trace w0)"
    and ord: "applications_ordered (trace w1) = applications_ordered (trace w0)"
    and sf: "\<And>u. first_committed (surfaces w1 u) =
             (if u \<in> set (keys_of w0 t)
              then first_of (filter (touches w0 u) (remove1 t (committed_queue w0)))
              else first_committed (surfaces w0 u))"
            "\<And>u. last_committed (surfaces w1 u) =
             (if u \<in> set (keys_of w0 t)
              then last_of (filter (touches w0 u) (remove1 t (committed_queue w0)))
              else last_committed (surfaces w0 u))"
    by (auto simp: pass_inv_def)
  from p1 obtain cs1 where cs1: "candidates_ok w1 fc1 cs1" and tcs1: "t \<notin> set cs1"
    by (auto simp: pass_inv_def)
  from core_eqD(2)[OF core tx0] obtain tx1 where tx1: "heap w1 t = Some tx1"
    and nd: "node_data tx1 = node_data tx" by blast
  have rq: "(if node_data tx1 then remove1 t (committed_queue w0) else committed_queue w0) =
            remove1 t (committed_queue w0)"
  proof (cases "node_data tx1")
    case True
    then show ?thesis by simp
  next
    case False
    with nd q0 tx0 have "t \<notin> set (committed_queue w0)" by (fastforce simp: queue_ok_def)
    then show ?thesis by (simp add: remove1_idem)
  qed
  have "heap ?w2 t = Some tx1" using tx1 fr(1) by simp
  from free_live[OF this] free
  have w': "w' = ?w2\<lparr>committed_queue :=
               (if node_data tx1 then remove1 t (committed_queue ?w2) else committed_queue ?w2),
             heap := (heap ?w2)(t := None)\<rparr>"
    by simp
  have hw': "heap w' = (heap w1)(t := None)" using fr(1) by (simp add: w')
  have "committed_queue w' =
      (if node_data tx1 then remove1 t (committed_queue w0) else committed_queue w0)"
    by (simp add: w' fr(2) qe cong: if_cong)
  then have qw': "committed_queue w' = remove1 t (committed_queue w0)"
    unfolding rq .
  have sw': "surfaces w' = surfaces w1" by (simp add: w' fr(3))
  have tw': "trace w' = trace ?w2" by (simp add: w')
  have rem: "removed w0 w1 t w'"
    unfolding removed_def using core qe hw' qw' sw' by blast
  have 1: "queue_ok w'" using q0 rem by (rule removed_queue_ok)
  have 2: "chains_ok w'"
    unfolding chains_ok_def
  proof
    fix s
    note sc = removed_surface_chain[OF q0 rem, of s]
    show "first_committed (surfaces w' s) = first_of (surface_chain w' s) \<and>
        last_committed (surfaces w' s) = last_of (surface_chain w' s)"
    proof (cases "s \<in> set (keys_of w0 t)")
      case True
      then show ?thesis using sf(1)[of s] sf(2)[of s] by (simp add: sw' sc)
    next
      case False
      then have "\<not> touches w0 s t" by (simp add: touches_def)
      then have "filter (touches w0 s) (remove1 t (committed_queue w0)) = surface_chain w0 s"
        by (simp add: surface_chain_def filter_remove1_other)
      with False c0 show ?thesis using sf(1)[of s] sf(2)[of s]
        by (simp add: sw' sc chains_ok_def)
    qed
  qed
  have 3: "candidates_ok w' fc1 cs1" using cs1 tcs1 rem by (rule removed_candidates_ok)
  have "pending (trace w') = filter (\<lambda>p. fst p \<noteq> t) (pending (trace w))"
    by (simp add: tw' fr(6) pen w0(4))
  also have "\<dots> = filter (\<lambda>p. fst p \<noteq> t) (map (\<lambda>n. (n, keys_of w0 n)) (committed_queue w0))"
    by (simp add: tm(1) k0 w0(2))
  also note removed_pending[OF q0 rem]
  finally have 4: "pending (trace w') = map (\<lambda>n. (n, keys_of w' n)) (committed_queue w')" .
  have "in_turn t (pending (trace w))"
    unfolding tm(1) using q c rd by (rule ready_in_turn)
  then have 5: "applications_ordered (trace w')"
    using tm(2) by (simp add: tw' fr(7) ord w0(4))
  have "cascade_inv w' fc' cs1"
    unfolding cascade_inv_def trace_matches_def fc' using 1 2 3 4 5 by blast
  then show ?thesis using qw' w0(2) by auto
qed

lemma same_frame_keys: "same_frame w w' \<Longrightarrow> keys_of w' = keys_of w"
  using keys_of_core[of w' w] by (auto simp: same_frame_def fun_eq_iff)

lemma same_frame_queue_ok:
  assumes fr: "same_frame w w'" and q: "queue_ok w"
  shows "queue_ok w'"
proof -
  from fr have core: "core (heap w') = core (heap w)" and qe: "committed_queue w' = committed_queue w"
    by (simp_all add: same_frame_def)
  have a: "\<exists>nx. heap w' n = Some nx \<and> node_data nx" if "n \<in> set (committed_queue w')" for n
  proof -
    from q that obtain nx0 where nx0: "heap w n = Some nx0" "node_data nx0"
      by (auto simp: queue_ok_def qe)
    from core_eqD(2)[OF core nx0(1)] nx0(2) show ?thesis by auto
  qed
  have b: "distinct (map fst (entries nx)) \<and> (node_data nx \<longrightarrow> n \<in> set (committed_queue w'))"
    if "heap w' n = Some nx" for n nx
  proof -
    from core_eqD(1)[OF core, of n] that obtain nx0 where nx0: "heap w n = Some nx0"
      by (cases "heap w n") auto
    from core_eqD(2)[OF core nx0] that have same: "entries nx = entries nx0" "node_data nx = node_data nx0"
      by auto
    from q nx0 have "distinct (map fst (entries nx0))" "node_data nx0 \<longrightarrow> n \<in> set (committed_queue w)"
      by (auto simp: queue_ok_def)
    with same show ?thesis by (simp add: qe)
  qed
  from q have "distinct (committed_queue w')" by (simp add: queue_ok_def qe)
  with a b show ?thesis unfolding queue_ok_def by blast
qed

lemma same_frame_chains_ok:
  assumes fr: "same_frame w w'" and c: "chains_ok w"
  shows "chains_ok w'"
proof -
  have "touches w' = touches w"
    using same_frame_keys[OF fr] by (simp add: touches_def fun_eq_iff)
  with c fr show ?thesis
    by (simp add: chains_ok_def surface_chain_def same_frame_def)
qed

lemma same_frame_trace_matches:
  assumes fr: "same_frame w w'" and t: "trace_matches w"
  shows "trace_matches w'"
  using t fr same_frame_keys[OF fr] by (simp add: trace_matches_def same_frame_def)

lemma chain_sentinel: "chain h TRANSACTION_NONE cs \<Longrightarrow> cs = []"
  by (cases cs) (auto simp: chain_def)

lemma chain_null: "\<not> chain h Null cs"
  by (cases cs) (auto simp: chain_def)

lemma chain_ptr:
  "chain h (Ptr n) cs \<Longrightarrow> \<exists>nx cs'. cs = n # cs' \<and> h n = Some nx \<and> chain h (next_candidate nx) cs'"
  by (cases cs) (auto simp: chain_def split: option.splits)

text \<open>Taking the first candidate off the chain.\<close>

lemma pop_keeps_inv:
  assumes inv: "cascade_inv w (Ptr n) cs" and nx: "heap w n = Some nx"
  shows "\<exists>cs'. cs = n # cs' \<and>
           cascade_inv (w\<lparr>heap := (heap w)(n \<mapsto> nx\<lparr>next_candidate := Null\<rparr>)\<rparr>) (next_candidate nx) cs'"
proof -
  let ?w' = "w\<lparr>heap := (heap w)(n \<mapsto> nx\<lparr>next_candidate := Null\<rparr>)\<rparr>"
  from inv have q: "queue_ok w" and c: "chains_ok w" and cs: "candidates_ok w (Ptr n) cs"
    and tm: "trace_matches w"
    by (simp_all add: cascade_inv_def)
  from cs have ch: "chain (heap w) (Ptr n) cs" and d: "distinct cs"
    and srt: "sorted (map (sequence_of w) cs)" and sub: "set cs \<subseteq> set (committed_queue w)"
    and iff: "\<forall>m mx. heap w m = Some mx \<longrightarrow> (next_candidate mx \<noteq> Null) = (m \<in> set cs)"
    by (auto simp: candidates_ok_def)
  from chain_ptr[OF ch] nx obtain cs' where cs': "cs = n # cs'"
    and ch': "chain (heap w) (next_candidate nx) cs'" by auto
  have fr: "same_frame w ?w'" using nx by (simp add: same_frame_def core_upd_next)
  have ncs': "n \<notin> set cs'" using d cs' by simp
  have 1: "chain (heap ?w') (next_candidate nx) cs'"
    using ch' ncs' by (simp add: chain_def path_upd_notin)
  have sq: "sequence_of ?w' = sequence_of w"
    using sequence_of_core[of ?w' w] fr by (auto simp: same_frame_def fun_eq_iff)
  have 2: "sorted (map (sequence_of ?w') cs')" using srt cs' by (simp add: sq)
  have 3: "\<forall>m mx. heap ?w' m = Some mx \<longrightarrow> (next_candidate mx \<noteq> Null) = (m \<in> set cs')"
  proof (intro allI impI)
    fix m mx assume m: "heap ?w' m = Some mx"
    show "(next_candidate mx \<noteq> Null) = (m \<in> set cs')"
    proof (cases "m = n")
      case True
      with m ncs' show ?thesis by auto
    next
      case False
      with m have "heap w m = Some mx" by simp
      with iff False cs' show ?thesis by auto
    qed
  qed
  have "candidates_ok ?w' (next_candidate nx) cs'"
    unfolding candidates_ok_def using 1 2 3 d sub cs' by auto
  with same_frame_queue_ok[OF fr q] same_frame_chains_ok[OF fr c] same_frame_trace_matches[OF fr tm]
  have "cascade_inv ?w' (next_candidate nx) cs'" by (simp add: cascade_inv_def)
  with cs' show ?thesis by blast
qed

lemma maybe_apply_one_keeps_inv:
  assumes inv: "cascade_inv w fc cs" and tx: "heap w t = Some tx" and tcs: "t \<notin> set cs"
    and res: "meta_wayland_transaction_maybe_apply_one w t fc = Some (w1, fc1)"
  shows "\<exists>cs1. cascade_inv w1 fc1 cs1 \<and>
           ((w1 = w \<and> fc1 = fc \<and> cs1 = cs) \<or>
            committed_queue w1 = remove1 t (committed_queue w))"
proof (cases "has_unapplied_dependencies w t")
  case None
  with res show ?thesis by (simp add: meta_wayland_transaction_maybe_apply_one_def)
next
  case (Some b)
  show ?thesis
  proof (cases b)
    case True
    with Some res have "w1 = w" "fc1 = fc"
      by (simp_all add: meta_wayland_transaction_maybe_apply_one_def)
    with inv show ?thesis by blast
  next
    case False
    with Some res have a: "meta_wayland_transaction_apply w t fc = Some (w1, fc1)"
      and r: "has_unapplied_dependencies w t = Some False"
      by (simp_all add: meta_wayland_transaction_maybe_apply_one_def)
    from apply_keeps_inv[OF inv tx tcs r a] show ?thesis by blast
  qed
qed

lemma round_keeps_inv:
  assumes inv: "cascade_inv w fc cs" and tx: "heap w t = Some tx" and tcs: "t \<notin> set cs"
    and res: "maybe_apply_round w t fc = Some r"
  shows "(\<forall>w'. r = Inl w' \<longrightarrow> world_inv w') \<and>
         (\<forall>w' t' fc'. r = Inr (w', t', fc') \<longrightarrow>
            (\<exists>cs'. cascade_inv w' fc' cs' \<and> heap w' t' \<noteq> None \<and>
               distinct (t' # cs') \<and> sorted (map (sequence_of w') (t' # cs')) \<and>
               t' \<in> set (committed_queue w') \<and>
               ((committed_queue w' = committed_queue w \<and> cs = t' # cs') \<or>
                committed_queue w' = remove1 t (committed_queue w))))"
proof -
  from res obtain w1 fc1 where one: "meta_wayland_transaction_maybe_apply_one w t fc = Some (w1, fc1)"
    by (auto simp: maybe_apply_round_def split: option.splits)
  from maybe_apply_one_keeps_inv[OF inv tx tcs one] obtain cs1 where
    inv1: "cascade_inv w1 fc1 cs1"
    and alt: "(w1 = w \<and> fc1 = fc \<and> cs1 = cs) \<or> committed_queue w1 = remove1 t (committed_queue w)"
    by blast
  from inv1 have cs1: "candidates_ok w1 fc1 cs1" by (simp add: cascade_inv_def)
  then have ch: "chain (heap w1) fc1 cs1" by (simp add: candidates_ok_def)
  show ?thesis
  proof (cases fc1)
    case Null
    with ch chain_null show ?thesis by blast
  next
    case TRANSACTION_NONE
    with ch have "cs1 = []" by (auto dest: chain_sentinel)
    with inv1 TRANSACTION_NONE have "world_inv w1" by (simp add: world_inv_def)
    moreover from res one TRANSACTION_NONE have "r = Inl w1"
      by (simp add: maybe_apply_round_def)
    ultimately show ?thesis by simp
  next
    case (Ptr n)
    with ch obtain nx cs0 where c0: "cs1 = n # cs0" and nx: "heap w1 n = Some nx"
      by (auto dest: chain_ptr)
    let ?w' = "w1\<lparr>heap := (heap w1)(n \<mapsto> nx\<lparr>next_candidate := Null\<rparr>)\<rparr>"
    from res one Ptr nx have r: "r = Inr (?w', n, next_candidate nx)"
      by (simp add: maybe_apply_round_def)
    from pop_keeps_inv[OF inv1[unfolded Ptr] nx] c0
    have inv': "cascade_inv ?w' (next_candidate nx) cs0" by auto
    from cs1 c0 have d: "distinct (n # cs0)" and srt: "sorted (map (sequence_of w1) (n # cs0))"
      and nq: "n \<in> set (committed_queue w1)"
      by (auto simp: candidates_ok_def)
    have fr: "same_frame w1 ?w'" using nx by (simp add: same_frame_def core_upd_next)
    have sq: "sequence_of ?w' = sequence_of w1"
      using sequence_of_core[of ?w' w1] fr by (auto simp: same_frame_def fun_eq_iff)
    have srt': "sorted (map (sequence_of ?w') (n # cs0))" unfolding sq by (rule srt)
    have alt': "(committed_queue ?w' = committed_queue w \<and> cs = n # cs0) \<or>
        committed_queue ?w' = remove1 t (committed_queue w)"
      using alt c0 by auto
    have "\<exists>cs'. cascade_inv ?w' (next_candidate nx) cs' \<and> heap ?w' n \<noteq> None \<and>
               distinct (n # cs') \<and> sorted (map (sequence_of ?w') (n # cs')) \<and>
               n \<in> set (committed_queue ?w') \<and>
               ((committed_queue ?w' = committed_queue w \<and> cs = n # cs') \<or>
                committed_queue ?w' = remove1 t (committed_queue w))"
      using inv' d srt' nq alt' by (intro exI[of _ cs0]) simp
    with r show ?thesis by simp
  qed
qed

lemma loop_keeps_inv_all:
  assumes "maybe_apply_loop w t fc = Some w'"
  shows "\<forall>cs. cascade_inv w fc cs \<longrightarrow> heap w t \<noteq> None \<longrightarrow> t \<notin> set cs \<longrightarrow> world_inv w'"
proof (rule maybe_apply_loop.raw_induct
    [where P = "\<lambda>w t fc w'. \<forall>cs. cascade_inv w fc cs \<longrightarrow> heap w t \<noteq> None \<longrightarrow> t \<notin> set cs \<longrightarrow> world_inv w'",
     OF _ assms])
  fix loop :: "world \<Rightarrow> tref \<Rightarrow> candidate \<Rightarrow> world option" and w t fc w'
  assume IH: "\<And>w t fc w'. loop w t fc = Some w' \<Longrightarrow>
      \<forall>cs. cascade_inv w fc cs \<longrightarrow> heap w t \<noteq> None \<longrightarrow> t \<notin> set cs \<longrightarrow> world_inv w'"
    and eq: "(case maybe_apply_round w t fc of None \<Rightarrow> None | Some (Inl w') \<Rightarrow> Some w'
              | Some (Inr (w', t', fc')) \<Rightarrow> loop w' t' fc') = Some w'"
  show "\<forall>cs. cascade_inv w fc cs \<longrightarrow> heap w t \<noteq> None \<longrightarrow> t \<notin> set cs \<longrightarrow> world_inv w'"
  proof (intro allI impI)
    fix cs
    assume inv: "cascade_inv w fc cs" and live: "heap w t \<noteq> None" and tcs: "t \<notin> set cs"
    from live obtain tx where tx: "heap w t = Some tx" by auto
    from eq obtain r where r: "maybe_apply_round w t fc = Some r"
      by (auto split: option.splits)
    note k = round_keeps_inv[OF inv tx tcs r]
    show "world_inv w'"
    proof (cases r)
      case (Inl w1)
      with eq r have "w' = w1" by simp
      with k Inl show ?thesis by simp
    next
      case (Inr c)
      obtain w1 t1 fc1 where c: "c = (w1, t1, fc1)" by (cases c)
      with eq r Inr have l: "loop w1 t1 fc1 = Some w'" by simp
      from k Inr c obtain cs' where "cascade_inv w1 fc1 cs'" "heap w1 t1 \<noteq> None" "t1 \<notin> set cs'"
        by auto
      with IH[OF l] show ?thesis by blast
    qed
  qed
qed

lemma loop_keeps_inv:
  "maybe_apply_loop w t fc = Some w' \<Longrightarrow> cascade_inv w fc cs \<Longrightarrow> heap w t \<noteq> None \<Longrightarrow>
   t \<notin> set cs \<Longrightarrow> world_inv w'"
  using loop_keeps_inv_all by blast

lemma maybe_apply_keeps_inv:
  "world_inv w \<Longrightarrow> heap w t \<noteq> None \<Longrightarrow> meta_wayland_transaction_maybe_apply w t = Some w' \<Longrightarrow>
   world_inv w'"
  unfolding meta_wayland_transaction_maybe_apply_def world_inv_def[of w]
  by (rule loop_keeps_inv[where cs = "[]"]) simp_all

text \<open>A change that leaves the queue, the log and the queued transactions alone.\<close>

lemma uncommitted_change_keeps_inv:
  assumes inv: "world_inv w"
    and qe: "committed_queue w' = committed_queue w" and tr: "trace w' = trace w"
    and sf: "\<And>u. first_committed (surfaces w' u) = first_committed (surfaces w u) \<and>
                  last_committed (surfaces w' u) = last_committed (surfaces w u)"
    and hq: "\<And>n. n \<in> set (committed_queue w) \<Longrightarrow> heap w' n = heap w n"
    and ho: "\<And>n nx. heap w' n = Some nx \<Longrightarrow> n \<notin> set (committed_queue w) \<Longrightarrow>
               \<not> node_data nx \<and> next_candidate nx = Null \<and> distinct (map fst (entries nx))"
  shows "world_inv w'"
proof -
  from inv have q: "queue_ok w" and c: "chains_ok w" and cs: "candidates_ok w TRANSACTION_NONE []"
    and tm: "trace_matches w"
    by (simp_all add: world_inv_def cascade_inv_def)
  have kq: "keys_of w' n = keys_of w n" if "n \<in> set (committed_queue w)" for n
    using hq[OF that] by (simp add: keys_of_def)
  have 1: "queue_ok w'"
    unfolding queue_ok_def
  proof (intro conjI ballI allI impI)
    show "distinct (committed_queue w')" using q by (simp add: queue_ok_def qe)
  next
    fix n assume "n \<in> set (committed_queue w')"
    then have n: "n \<in> set (committed_queue w)" by (simp add: qe)
    with q hq[OF n] show "\<exists>nx. heap w' n = Some nx \<and> node_data nx" by (auto simp: queue_ok_def)
  next
    fix n nx assume h: "heap w' n = Some nx"
    show "distinct (map fst (entries nx))"
    proof (cases "n \<in> set (committed_queue w)")
      case True
      with q hq[OF True] h show ?thesis by (auto simp: queue_ok_def)
    next
      case False
      with ho[OF h] show ?thesis by simp
    qed
    assume nd: "node_data nx"
    show "n \<in> set (committed_queue w')"
    proof (rule ccontr)
      assume "n \<notin> set (committed_queue w')"
      then have "n \<notin> set (committed_queue w)" by (simp add: qe)
      with ho[OF h] nd show False by simp
    qed
  qed
  have "surface_chain w' s = surface_chain w s" for s
    unfolding surface_chain_def qe
    using kq by (intro filter_cong) (auto simp: touches_def)
  with c sf have 2: "chains_ok w'" by (simp add: chains_ok_def)
  have 3: "candidates_ok w' TRANSACTION_NONE []"
    unfolding candidates_ok_def
  proof (intro conjI allI impI)
    fix n nx assume h: "heap w' n = Some nx"
    show "(next_candidate nx \<noteq> Null) = (n \<in> set [])"
    proof (cases "n \<in> set (committed_queue w)")
      case True
      with cs hq[OF True] h show ?thesis by (auto simp: candidates_ok_def)
    next
      case False
      with ho[OF h] show ?thesis by simp
    qed
  qed (simp_all add: chain_def)
  have "map (\<lambda>n. (n, keys_of w' n)) (committed_queue w) = map (\<lambda>n. (n, keys_of w n)) (committed_queue w)"
    using kq by (intro map_cong) auto
  with tm have 4: "trace_matches w'" by (simp add: trace_matches_def tr qe)
  show ?thesis unfolding world_inv_def cascade_inv_def using 1 2 3 4 by blast
qed

lemma world_inv_uncommitted:
  assumes "world_inv w" and "heap w t = Some tx" and "\<not> node_data tx"
  shows "t \<notin> set (committed_queue w)"
  using assms by (auto simp: world_inv_def cascade_inv_def queue_ok_def)

lemma world_inv_other:
  assumes "world_inv w" and "heap w n = Some nx" and "n \<notin> set (committed_queue w)"
  shows "\<not> node_data nx \<and> next_candidate nx = Null \<and> distinct (map fst (entries nx))"
  using assms by (auto simp: world_inv_def cascade_inv_def queue_ok_def candidates_ok_def)

lemma world_inv_live:
  assumes "world_inv w" and "heap w n = Some nx"
  shows "next_candidate nx = Null" and "distinct (map fst (entries nx))"
  using assms by (auto simp: world_inv_def cascade_inv_def queue_ok_def candidates_ok_def)

lemma world_inv_queued_live:
  assumes "world_inv w" and "n \<in> set (committed_queue w)"
  shows "heap w n \<noteq> None"
  using assms by (auto simp: world_inv_def cascade_inv_def queue_ok_def)

lemma new_keeps_inv:
  assumes inv: "world_inv w" and r: "meta_wayland_transaction_new w t = Some w'"
  shows "world_inv w'"
proof -
  from r have none: "heap w t = None" and w': "w' = w\<lparr>heap := (heap w)(t \<mapsto> transaction0)\<rparr>"
    by (auto simp: meta_wayland_transaction_new_def split: if_splits)
  from inv none have tq: "t \<notin> set (committed_queue w)"
    using world_inv_queued_live by blast
  show ?thesis
  proof (rule uncommitted_change_keeps_inv[OF inv])
    fix n nx assume "heap w' n = Some nx" "n \<notin> set (committed_queue w)"
    then show "\<not> node_data nx \<and> next_candidate nx = Null \<and> distinct (map fst (entries nx))"
      using inv world_inv_other[of w n nx]
      by (cases "n = t") (auto simp: w' transaction0_def)
  qed (use tq in \<open>auto simp: w'\<close>)
qed

lemma add_subsurface_position_keeps_inv:
  assumes inv: "world_inv w" and tx: "heap w t = Some tx" and un: "\<not> node_data tx"
    and r: "meta_wayland_transaction_add_subsurface_position w t s x y = Some w'"
  shows "world_inv w'"
proof -
  from add_subsurface_position_live[OF tx, of s x y] r obtain tx' where
    w': "w' = w\<lparr>heap := (heap w)(t \<mapsto> tx')\<rparr>"
    and k: "node_data tx' = node_data tx" "next_candidate tx' = next_candidate tx"
      "distinct (map fst (entries tx)) \<longrightarrow> distinct (map fst (entries tx'))"
    by auto
  note tq = world_inv_uncommitted[OF inv tx un]
  note l = world_inv_live[OF inv tx]
  show ?thesis
  proof (rule uncommitted_change_keeps_inv[OF inv])
    fix n nx assume "heap w' n = Some nx" "n \<notin> set (committed_queue w)"
    then show "\<not> node_data nx \<and> next_candidate nx = Null \<and> distinct (map fst (entries nx))"
      using inv world_inv_other[of w n nx] k un l
      by (cases "n = t") (auto simp: w')
  qed (use tq in \<open>auto simp: w'\<close>)
qed

lemma merge_pending_state_keeps_inv:
  assumes inv: "world_inv w" and tx: "heap w t = Some tx" and un: "\<not> node_data tx"
    and r: "meta_wayland_transaction_merge_pending_state X w t s = Some w'"
  shows "world_inv w'"
proof -
  from merge_pending_state_live[OF tx, of X s] r obtain tx' sf' where
    w': "w' = w\<lparr>heap := (heap w)(t \<mapsto> tx'), surfaces := sf'\<rparr>"
    and k: "node_data tx' = node_data tx" "next_candidate tx' = next_candidate tx"
      "distinct (map fst (entries tx)) \<longrightarrow> distinct (map fst (entries tx'))"
    and sf: "\<forall>u. first_committed (sf' u) = first_committed (surfaces w u) \<and>
                last_committed (sf' u) = last_committed (surfaces w u) \<and>
                sub_parent (sf' u) = sub_parent (surfaces w u)"
    by auto
  note tq = world_inv_uncommitted[OF inv tx un]
  note l = world_inv_live[OF inv tx]
  show ?thesis
  proof (rule uncommitted_change_keeps_inv[OF inv])
    fix n nx assume "heap w' n = Some nx" "n \<notin> set (committed_queue w)"
    then show "\<not> node_data nx \<and> next_candidate nx = Null \<and> distinct (map fst (entries nx))"
      using inv world_inv_other[of w n nx] k un l
      by (cases "n = t") (auto simp: w')
  qed (use tq sf in \<open>auto simp: w'\<close>)
qed

lemma free_keeps_inv:
  assumes inv: "world_inv w" and tx: "heap w t = Some tx" and un: "\<not> node_data tx"
    and r: "meta_wayland_transaction_free w t = Some w'"
  shows "world_inv w'"
proof -
  from r tx un have w': "w' = w\<lparr>heap := (heap w)(t := None)\<rparr>"
    by (simp add: meta_wayland_transaction_free_def)
  note tq = world_inv_uncommitted[OF inv tx un]
  show ?thesis
  proof (rule uncommitted_change_keeps_inv[OF inv])
    fix n nx assume "heap w' n = Some nx" "n \<notin> set (committed_queue w)"
    then show "\<not> node_data nx \<and> next_candidate nx = Null \<and> distinct (map fst (entries nx))"
      using inv world_inv_other[of w n nx]
      by (cases "n = t") (auto simp: w')
  qed (use tq in \<open>auto simp: w'\<close>)
qed

lemma merge_into_keeps_inv:
  assumes inv: "world_inv w" and f: "heap w from = Some ftx" "\<not> node_data ftx"
    and t: "heap w to = Some ttx" "\<not> node_data ttx" and ne: "from \<noteq> to"
    and r: "meta_wayland_transaction_merge_into X w from to = Some w'"
  shows "world_inv w'"
proof -
  from r merge_into_live[OF f(1) t(1) ne, of X] f(2)
  have w': "w' = w\<lparr>heap := (heap w)(to \<mapsto> ttx\<lparr>entries := merge_entries X (entries ftx) (entries ttx)\<rparr>,
                              from := None)\<rparr>"
    by simp
  note fq = world_inv_uncommitted[OF inv f]
  note tq = world_inv_uncommitted[OF inv t]
  note l = world_inv_live[OF inv t(1)]
  show ?thesis
  proof (rule uncommitted_change_keeps_inv[OF inv])
    fix n nx assume "heap w' n = Some nx" "n \<notin> set (committed_queue w)"
    then show "\<not> node_data nx \<and> next_candidate nx = Null \<and> distinct (map fst (entries nx))"
      using inv world_inv_other[of w n nx] t(2) l
        distinct_merge_entries[OF l(2), of X "entries ftx"]
      by (cases "n = to") (auto simp: w' split: if_splits)
  qed (use fq tq in \<open>auto simp: w'\<close>)
qed

lemma commit_enqueue_keeps_inv:
  assumes inv: "world_inv w" and tx: "heap w t = Some tx" and un: "\<not> node_data tx"
    and r: "commit_enqueue w t = Some (w1, b)"
  shows "world_inv w1" and "heap w1 t \<noteq> None" and "t \<in> set (committed_queue w1)"
proof -
  from inv have q: "queue_ok w" and c: "chains_ok w" and cs: "candidates_ok w TRANSACTION_NONE []"
    and tm: "trace_matches w"
    by (simp_all add: world_inv_def cascade_inv_def)
  note tq = world_inv_uncommitted[OF inv tx un]
  note l = world_inv_live[OF inv tx]
  let ?tx1 = "tx\<lparr>committed_sequence := sequence_counter w + 1, node_data := True\<rparr>"
  from r commit_enqueue_eq[OF tx l(2)] have
    w1: "w1 = w\<lparr>surfaces := (\<lambda>s. if s \<in> entry_surfaces (entries tx) then commit_mark t (surfaces w s)
                                else surfaces w s),
             heap := (heap w)(t \<mapsto> ?tx1),
             committed_queue := committed_queue w @ [t],
             sequence_counter := sequence_counter w + 1,
             trace := EvCommit t (map fst (entries tx)) # trace w\<rparr>"
    by simp
  have h1: "heap w1 = (heap w)(t \<mapsto> ?tx1)" and q1: "committed_queue w1 = committed_queue w @ [t]"
    and t1: "trace w1 = EvCommit t (map fst (entries tx)) # trace w"
    and s1: "surfaces w1 = (\<lambda>s. if s \<in> entry_surfaces (entries tx) then commit_mark t (surfaces w s)
                                else surfaces w s)"
    by (simp_all add: w1)
  show "heap w1 t \<noteq> None" by (simp add: h1)
  show "t \<in> set (committed_queue w1)" by (simp add: q1)
  have k: "keys_of w1 = keys_of w"
    using tx by (auto simp: keys_of_def h1 fun_eq_iff)
  have to: "touches w1 = touches w" by (simp add: touches_def k fun_eq_iff)
  have kt: "keys_of w t = map fst (entries tx)" using tx by (rule keys_of_live)
  have 1: "queue_ok w1"
    unfolding queue_ok_def
  proof (intro conjI ballI allI impI)
    show "distinct (committed_queue w1)" using q tq by (simp add: queue_ok_def q1)
  next
    fix n assume "n \<in> set (committed_queue w1)"
    with q show "\<exists>nx. heap w1 n = Some nx \<and> node_data nx"
      by (cases "n = t") (auto simp: queue_ok_def q1 h1)
  next
    fix n nx assume h: "heap w1 n = Some nx"
    with q l(2) show "distinct (map fst (entries nx))"
      by (cases "n = t") (auto simp: queue_ok_def h1)
    assume "node_data nx"
    with h q show "n \<in> set (committed_queue w1)"
      by (cases "n = t") (auto simp: queue_ok_def h1 q1)
  qed
  have 2: "chains_ok w1"
    unfolding chains_ok_def
  proof
    fix s
    have ch: "surface_chain w1 s = surface_chain w s @ (if touches w s t then [t] else [])"
      by (simp add: surface_chain_def q1 to)
    from c have f: "first_committed (surfaces w s) = first_of (surface_chain w s)"
      and la: "last_committed (surfaces w s) = last_of (surface_chain w s)"
      by (simp_all add: chains_ok_def)
    show "first_committed (surfaces w1 s) = first_of (surface_chain w1 s) \<and>
          last_committed (surfaces w1 s) = last_of (surface_chain w1 s)"
    proof (cases "touches w s t")
      case True
      then have "s \<in> entry_surfaces (entries tx)"
        by (simp add: touches_def kt entry_surfaces_def)
      then have "surfaces w1 s = commit_mark t (surfaces w s)" by (simp add: s1)
      then show ?thesis
        using True f la by (auto simp: ch commit_mark_def first_of_append)
    next
      case False
      then have "s \<notin> entry_surfaces (entries tx)"
        by (simp add: touches_def kt entry_surfaces_def)
      then have "surfaces w1 s = surfaces w s" by (simp add: s1)
      then show ?thesis using False f la by (simp add: ch)
    qed
  qed
  have 3: "candidates_ok w1 TRANSACTION_NONE []"
    unfolding candidates_ok_def
  proof (intro conjI allI impI)
    fix n nx assume h: "heap w1 n = Some nx"
    with cs l(1) show "(next_candidate nx \<noteq> Null) = (n \<in> set [])"
      by (cases "n = t") (auto simp: candidates_ok_def h1)
  qed (simp_all add: chain_def)
  have 4: "trace_matches w1"
    using tm by (simp add: trace_matches_def t1 q1 k kt)
  show "world_inv w1" unfolding world_inv_def cascade_inv_def using 1 2 3 4 by blast
qed

lemma commit_keeps_inv:
  assumes inv: "world_inv w" and tx: "heap w t = Some tx" and un: "\<not> node_data tx"
    and r: "meta_wayland_transaction_commit w t = Some w'"
  shows "world_inv w'"
proof -
  from r obtain w1 b where e: "commit_enqueue w t = Some (w1, b)"
    and m: "(if b then meta_wayland_transaction_maybe_apply w1 t else Some w1) = Some w'"
    by (auto simp: meta_wayland_transaction_commit_def split: option.splits)
  note k = commit_enqueue_keeps_inv[OF inv tx un e]
  show ?thesis
  proof (cases b)
    case True
    with m have "meta_wayland_transaction_maybe_apply w1 t = Some w'" by simp
    with k show ?thesis by (intro maybe_apply_keeps_inv[of w1 t w']) auto
  next
    case False
    with m k show ?thesis by simp
  qed
qed

lemma api_step_keeps_inv:
  assumes "api_step X w w'" and "world_inv w"
  shows "world_inv w'"
  using assms
proof (induction rule: api_step.induct)
  case (step_new w t w')
  then show ?case by (blast intro: new_keeps_inv)
next
  case (step_add_subsurface_position w t tx s x y w')
  then show ?case by (blast intro: add_subsurface_position_keeps_inv)
next
  case (step_merge_pending_state w t tx s w')
  then show ?case by (blast intro: merge_pending_state_keeps_inv)
next
  case (step_merge_into w "from" ftx to ttx w')
  then show ?case by (blast intro: merge_into_keeps_inv)
next
  case (step_free w t tx w')
  then show ?case by (blast intro: free_keeps_inv)
next
  case (step_commit w t tx w')
  then show ?case by (blast intro: commit_keeps_inv)
next
  case (step_maybe_apply t w w')
  then show ?case
    using world_inv_queued_live[of w t] by (blast intro: maybe_apply_keeps_inv)
qed

lemma api_run_keeps_inv:
  assumes "(api_step X)\<^sup>*\<^sup>* w0 w" and "world_inv w0"
  shows "world_inv w"
  using assms by (induction rule: rtranclp_induct) (auto intro: api_step_keeps_inv)

lemma world_inv_disjoint_world: "world_inv disjoint_world"
  unfolding world_inv_def cascade_inv_def
proof (intro conjI)
  show "queue_ok disjoint_world"
    by (auto simp: queue_ok_def disjoint_world_def split: if_splits)
  show "chains_ok disjoint_world"
    by (auto simp: chains_ok_def surface_chain_def touches_def keys_of_def disjoint_world_def
        idle_surface_def)
  show "candidates_ok disjoint_world TRANSACTION_NONE []"
    by (auto simp: candidates_ok_def chain_def disjoint_world_def split: if_splits)
  show "trace_matches disjoint_world"
    by (simp add: trace_matches_def keys_of_def disjoint_world_def)
qed

lemma world_inv_cascade_world: "world_inv cascade_world"
  unfolding world_inv_def cascade_inv_def
proof (intro conjI)
  show "queue_ok cascade_world"
    by (auto simp: queue_ok_def cascade_world_def split: if_splits)
  show "chains_ok cascade_world"
    by (auto simp: chains_ok_def surface_chain_def touches_def keys_of_def cascade_world_def
        idle_surface_def)
  show "candidates_ok cascade_world TRANSACTION_NONE []"
    by (auto simp: candidates_ok_def chain_def cascade_world_def split: if_splits)
  show "trace_matches cascade_world"
    by (simp add: trace_matches_def keys_of_def cascade_world_def)
qed

lemma world_inv_queued_world: "world_inv queued_world"
  unfolding world_inv_def cascade_inv_def
proof (intro conjI)
  show "queue_ok queued_world"
    by (auto simp: queue_ok_def queued_world_def split: if_splits)
  show "chains_ok queued_world"
    by (auto simp: chains_ok_def surface_chain_def touches_def keys_of_def queued_world_def
        idle_surface_def)
  show "candidates_ok queued_world TRANSACTION_NONE []"
    by (auto simp: candidates_ok_def chain_def queued_world_def split: if_splits)
  show "trace_matches queued_world"
    by (simp add: trace_matches_def keys_of_def queued_world_def)
qed

lemma world_inv_initial_world: "world_inv (initial_world par tp)"
  by (simp add: world_inv_def cascade_inv_def queue_ok_def chains_ok_def candidates_ok_def
      trace_matches_def surface_chain_def chain_def initial_world_def idle_surface_def)

lemma applications_ordered_suffix:
  "applications_ordered (later @ earlier) \<Longrightarrow> applications_ordered earlier"
proof (induction later)
  case Nil
  then show ?case by simp
next
  case (Cons e later)
  then show ?case by (cases e) auto
qed

lemma in_turn_suffix: "in_turn t (ps @ qs) \<Longrightarrow> in_turn t qs"
  by (induction ps) auto

lemma in_turn_disjoint:
  "in_turn t (ps1 @ p # ps2 @ (t, ss) # ps3) \<Longrightarrow> set (snd p) \<inter> set ss = {}"
  by (drule in_turn_suffix) auto

text \<open>
  Claim C1. Start in any compositor state that satisfies the invariant of the queue (with
  transactions waiting or not) and let the compositor build, merge, discard and commit
  transactions and enter the apply/cascade engine, in any order. Whenever the log then
  shows an application of \<open>T2\<close>, and among the commits not yet applied at that moment the
  commit of \<open>T1\<close> comes before the commit of \<open>T2\<close>, the two transactions have no surface
  in common: a transaction is never applied while an earlier commit on one of its surfaces
  waits.
\<close>

theorem applications_follow_commit_order:
  assumes "world_inv w0" and "(api_step X)\<^sup>*\<^sup>* w0 w"
    and "trace w = later @ EvApply t2 # earlier"
    and "pending earlier = ps1 @ (t1, ss1) # ps2 @ (t2, ss2) # ps3"
  shows "set ss1 \<inter> set ss2 = {}"
proof -
  from api_run_keeps_inv[OF assms(2,1)] have "applications_ordered (trace w)"
    by (simp add: world_inv_def cascade_inv_def trace_matches_def)
  then have "applications_ordered (EvApply t2 # earlier)"
    unfolding assms(3) by (rule applications_ordered_suffix)
  then have "in_turn t2 (ps1 @ (t1, ss1) # ps2 @ (t2, ss2) # ps3)"
    by (simp add: assms(4))
  from in_turn_disjoint[OF this] show ?thesis by simp
qed

theorem applications_follow_commit_order_witness:
  "world_inv disjoint_world \<and>
   map_option trace (meta_wayland_transaction_maybe_apply disjoint_world 11) =
     Some ([EvSyncChildStates 2, EvApplyState 2 empty_state] @ EvApply 11 #
           [EvCommit 11 [2], EvCommit 10 [1]]) \<and>
   pending [EvCommit 11 [2], EvCommit 10 [1]] = [] @ (10, [1]) # [] @ (11, [2]) # [] \<and>
   set [1::nat] \<inter> set [2] = {}"
proof -
  have tr: "map_option trace (meta_wayland_transaction_maybe_apply disjoint_world 11) =
     Some ([EvSyncChildStates 2, EvApplyState 2 empty_state] @ EvApply 11 #
           [EvCommit 11 [2], EvCommit 10 [1]])"
    by code_simp
  then obtain w where w: "meta_wayland_transaction_maybe_apply disjoint_world 11 = Some w"
    and trw: "trace w = [EvSyncChildStates 2, EvApplyState 2 empty_state] @ EvApply 11 #
           [EvCommit 11 [2], EvCommit 10 [1]]"
    by auto
  have "11 \<in> set (committed_queue disjoint_world)" by (simp add: disjoint_world_def)
  then have "api_step payload_ops disjoint_world w" using w by (rule step_maybe_apply)
  then have run: "(api_step payload_ops)\<^sup>*\<^sup>* disjoint_world w" by (rule r_into_rtranclp)
  have pe: "pending [EvCommit 11 [2], EvCommit 10 [1]] = [] @ (10, [1]) # [] @ (11, [2]) # []"
    by simp
  from applications_follow_commit_order[OF world_inv_disjoint_world run trw pe]
  show ?thesis using tr pe world_inv_disjoint_world by blast
qed

lemma ensure_next_candidate_skips:
  assumes "candidates_ok w fc cs" and "heap w n = Some nx" and "n \<in> set cs"
  shows "ensure_next_candidate w n fc = Some (w, fc)"
proof -
  from assms have "next_candidate nx \<noteq> Null" by (auto simp: candidates_ok_def)
  with assms(2) show ?thesis by (rule ensure_next_candidate_present)
qed

lemma cascade_reaches_inv:
  assumes "cascade_reaches w0 t0 c" and "world_inv w0" and "heap w0 t0 \<noteq> None"
  shows "\<exists>cs. cascade_inv (fst c) (snd (snd c)) cs \<and> heap (fst c) (fst (snd c)) \<noteq> None \<and>
           fst (snd c) \<notin> set cs"
  using assms
proof (induction rule: cascade_reaches.induct)
  case cascade_start
  then show ?case by (auto simp: world_inv_def)
next
  case (cascade_round w t fc c')
  from cascade_round.IH[OF cascade_round.prems] obtain cs tx where
    inv: "cascade_inv w fc cs" and tx: "heap w t = Some tx" and tcs: "t \<notin> set cs"
    by auto
  obtain w' t' fc' where c': "c' = (w', t', fc')" by (cases c')
  from round_keeps_inv[OF inv tx tcs cascade_round.hyps(2)] c'
  obtain cs' where "cascade_inv w' fc' cs'" "heap w' t' \<noteq> None" "distinct (t' # cs')"
    by auto
  then show ?case using c' by auto
qed

text \<open>
  Claim C6. Inserting a queued transaction into a candidate chain that is ascending by
  sequence number and free of repetitions returns and gives such a chain again, with the
  transaction added; a transaction that is on the chain already is skipped (nothing
  changes). In a run of the cascade loop that starts from a state satisfying the
  invariant, the chain has these properties at every head of the loop, and the
  transaction the loop takes off the chain for the next round has a sequence number that
  is at most that of every candidate left on the chain, and is not among them.
\<close>

theorem candidate_chain_sorted_without_repetition:
  assumes "world_inv w0" and "heap w0 t0 \<noteq> None" and "cascade_reaches w0 t0 (w, t, fc)"
  shows "(\<forall>w2 fc2 cs2 n nx.
            candidates_ok w2 fc2 cs2 \<and> n \<in> set (committed_queue w2) \<and> heap w2 n = Some nx \<longrightarrow>
            (\<exists>w' fc' cs'. ensure_next_candidate w2 n fc2 = Some (w', fc') \<and>
               candidates_ok w' fc' cs' \<and> set cs' = insert n (set cs2) \<and>
               (n \<in> set cs2 \<longrightarrow> w' = w2 \<and> fc' = fc2))) \<and>
         (\<exists>cs. chain (heap w) fc cs \<and> distinct cs \<and> sorted (map (sequence_of w) cs) \<and>
               t \<notin> set cs) \<and>
         (\<forall>w' t' fc'. maybe_apply_round w t fc = Some (Inr (w', t', fc')) \<longrightarrow>
            (\<exists>cs'. chain (heap w') fc' cs' \<and> distinct (t' # cs') \<and>
               sorted (map (sequence_of w') (t' # cs'))))"
proof (intro conjI allI impI)
  fix w2 fc2 cs2 n nx
  assume a: "candidates_ok w2 fc2 cs2 \<and> n \<in> set (committed_queue w2) \<and> heap w2 n = Some nx"
  then have ok: "candidates_ok w2 fc2 cs2" and nq: "n \<in> set (committed_queue w2)"
    and nx: "heap w2 n = Some nx" by auto
  from ensure_next_candidate_candidates[OF ok nq nx] obtain w' fc' cs' where
    r: "ensure_next_candidate w2 n fc2 = Some (w', fc')" "candidates_ok w' fc' cs'"
      "set cs' = insert n (set cs2)"
    by blast
  moreover have "n \<in> set cs2 \<longrightarrow> w' = w2 \<and> fc' = fc2"
    using ensure_next_candidate_skips[OF ok nx] r(1) by auto
  ultimately show "\<exists>w' fc' cs'. ensure_next_candidate w2 n fc2 = Some (w', fc') \<and>
               candidates_ok w' fc' cs' \<and> set cs' = insert n (set cs2) \<and>
               (n \<in> set cs2 \<longrightarrow> w' = w2 \<and> fc' = fc2)"
    by blast
next
  from cascade_reaches_inv[OF assms(3,1,2)] obtain cs where
    inv: "cascade_inv w fc cs" and live: "heap w t \<noteq> None" and tcs: "t \<notin> set cs"
    by auto
  then show "\<exists>cs. chain (heap w) fc cs \<and> distinct cs \<and> sorted (map (sequence_of w) cs) \<and>
               t \<notin> set cs"
    by (auto simp: cascade_inv_def candidates_ok_def)
  fix w' t' fc'
  assume r: "maybe_apply_round w t fc = Some (Inr (w', t', fc'))"
  from live obtain tx where tx: "heap w t = Some tx" by auto
  from round_keeps_inv[OF inv tx tcs r]
  show "\<exists>cs'. chain (heap w') fc' cs' \<and> distinct (t' # cs') \<and>
               sorted (map (sequence_of w') (t' # cs'))"
    by (auto simp: cascade_inv_def candidates_ok_def)
qed

theorem candidate_chain_sorted_without_repetition_witness:
  "world_inv cascade_world \<and>
   map_option (map_sum trace (\<lambda>(w, t, fc). (t, fc)))
     (maybe_apply_round cascade_world 10 TRANSACTION_NONE) = Some (Inr (11, Ptr 12)) \<and>
   (\<exists>w' cs'. maybe_apply_round cascade_world 10 TRANSACTION_NONE = Some (Inr (w', 11, Ptr 12)) \<and>
      chain (heap w') (Ptr 12) cs' \<and> distinct (11 # cs') \<and>
      sorted (map (sequence_of w') (11 # cs')))"
proof -
  have ev: "map_option (map_sum trace (\<lambda>(w, t, fc). (t, fc)))
     (maybe_apply_round cascade_world 10 TRANSACTION_NONE) = Some (Inr (11, Ptr 12))"
    by code_simp
  then obtain w' where r: "maybe_apply_round cascade_world 10 TRANSACTION_NONE = Some (Inr (w', 11, Ptr 12))"
    by (cases "maybe_apply_round cascade_world 10 TRANSACTION_NONE")
       (auto simp: map_sum_def split: sum.splits)
  have live: "heap cascade_world 10 \<noteq> None" by (simp add: cascade_world_def)
  have st: "cascade_reaches cascade_world 10 (cascade_world, 10, TRANSACTION_NONE)"
    by (rule cascade_start)
  from candidate_chain_sorted_without_repetition[OF world_inv_cascade_world live st] r
  have "\<exists>cs'. chain (heap w') (Ptr 12) cs' \<and> distinct (11 # cs') \<and>
      sorted (map (sequence_of w') (11 # cs'))"
    by blast
  with r ev world_inv_cascade_world show ?thesis by blast
qed

section \<open>Entries with neither a snapshot nor a position\<close>

lemma entries_inv_tables:
  "entries_inv w =
     (\<forall>n es s e. tables w n = Some es \<and> map_of es s = Some e \<longrightarrow> entry_ok e \<or> e = entry0)"
proof
  assume a: "entries_inv w"
  show "\<forall>n es s e. tables w n = Some es \<and> map_of es s = Some e \<longrightarrow> entry_ok e \<or> e = entry0"
  proof (intro allI impI)
    fix n es s e
    assume b: "tables w n = Some es \<and> map_of es s = Some e"
    then obtain tx where "heap w n = Some tx" "es = entries tx"
      by (auto simp: tables_def)
    with a b show "entry_ok e \<or> e = entry0"
      unfolding entries_inv_def meta_wayland_transaction_get_entry_def by blast
  qed
next
  assume a: "\<forall>n es s e. tables w n = Some es \<and> map_of es s = Some e \<longrightarrow> entry_ok e \<or> e = entry0"
  show "entries_inv w"
    unfolding entries_inv_def meta_wayland_transaction_get_entry_def
  proof (intro allI impI)
    fix t tx s e
    assume b: "heap w t = Some tx \<and> map_of (entries tx) s = Some e"
    then have "tables w t = Some (entries tx)" by (simp add: tables_def)
    with a b show "entry_ok e \<or> e = entry0" by blast
  qed
qed

lemma entries_inv_le:
  assumes "entries_inv w" and "tables w' \<subseteq>\<^sub>m tables w"
  shows "entries_inv w'"
  unfolding entries_inv_tables
proof (intro allI impI)
  fix n es s e
  assume a: "tables w' n = Some es \<and> map_of es s = Some e"
  with assms(2) have "tables w n = Some es" by (auto simp: map_le_def dom_def)
  with assms(1) a show "entry_ok e \<or> e = entry0" unfolding entries_inv_tables by blast
qed

lemma entries_inv_changed:
  assumes "entries_inv w"
    and "\<And>n nx. heap w' n = Some nx \<Longrightarrow> n \<noteq> t \<Longrightarrow> heap w n = Some nx"
    and "\<And>tx' s e. heap w' t = Some tx' \<Longrightarrow> map_of (entries tx') s = Some e \<Longrightarrow>
           entry_ok e \<or> e = entry0"
  shows "entries_inv w'"
  unfolding entries_inv_def meta_wayland_transaction_get_entry_def
proof (intro allI impI)
  fix n nx s e
  assume a: "heap w' n = Some nx \<and> map_of (entries nx) s = Some e"
  show "entry_ok e \<or> e = entry0"
  proof (cases "n = t")
    case True
    with a assms(3) show ?thesis by blast
  next
    case False
    with a assms(2) have "heap w n = Some nx" by blast
    with a assms(1) show ?thesis
      by (auto simp: entries_inv_def meta_wayland_transaction_get_entry_def)
  qed
qed

text \<open>
  The apply/cascade engine, commit and free leave the table of every transaction they do
  not free as it was.
\<close>

lemma tables_upd_next:
  "heap w p = Some px \<Longrightarrow>
   tables (w\<lparr>heap := (heap w)(p \<mapsto> px\<lparr>next_candidate := v\<rparr>)\<rparr>) = tables w"
  by (auto simp: tables_def fun_eq_iff)

lemma write_slot_tables:
  "write_slot w fc sl v = Some (w', fc') \<Longrightarrow> tables w' = tables w"
  by (auto simp: write_slot_def tables_upd_next split: slot.splits option.splits)

lemma ensure_next_candidate_tables:
  assumes "ensure_next_candidate w t fc = Some (w', fc')"
  shows "tables w' = tables w"
proof -
  from assms obtain tx where tx: "heap w t = Some tx"
    by (auto simp: ensure_next_candidate_def split: option.splits)
  show ?thesis
  proof (cases "next_candidate tx \<noteq> Null")
    case True
    with assms tx show ?thesis by (simp add: ensure_next_candidate_def)
  next
    case False
    with assms tx obtain sl c where
      "write_slot (w\<lparr>heap := (heap w)(t \<mapsto> tx\<lparr>next_candidate := c\<rparr>)\<rparr>) fc sl (Ptr t) = Some (w', fc')"
      by (auto simp: ensure_next_candidate_def split: bind_splits)
    from write_slot_tables[OF this] tx show ?thesis by (simp add: tables_upd_next)
  qed
qed

lemma apply_surface_tables:
  assumes "apply_surface t s (w, fc, st) = Some (w', fc', st')"
  shows "tables w' = tables w"
proof -
  from assms obtain tx entry where tx: "heap w t = Some tx"
    and entry: "meta_wayland_transaction_get_entry (entries tx) s = Some entry"
    by (auto simp: apply_surface_def split: option.splits)
  define w1 where "w1 = meta_wayland_transaction_apply_subsurface_position w s entry"
  define w2 where "w2 = (case entry_state entry of Some st \<Rightarrow> log (EvApplyState s st) w1 | None \<Rightarrow> w1)"
  note fr = pre_apply_frame[of w s entry, folded w1_def, folded w2_def]
  have p2: "tables w2 = tables w" by (simp add: tables_def fr(1) fun_eq_iff)
  have step: "apply_surface t s (w, fc, st) =
      (if last_committed (surfaces w2 s) = Some t
       then Some (w2\<lparr>surfaces := (surfaces w2)
                    (s := (surfaces w2 s)\<lparr>first_committed := None, last_committed := None\<rparr>)\<rparr>,
                  fc, st @ [entry_state entry])
       else (case find_next_transaction_for_surface w2 t s of
               None \<Rightarrow> None
             | Some None \<Rightarrow> Some (w2, fc, st @ [entry_state entry])
             | Some (Some next_transaction) \<Rightarrow>
                 (case ensure_next_candidate
                         (w2\<lparr>surfaces := (surfaces w2)
                            (s := (surfaces w2 s)\<lparr>first_committed := Some next_transaction\<rparr>)\<rparr>)
                         next_transaction fc of
                    None \<Rightarrow> None
                  | Some (w3, fc') \<Rightarrow> Some (w3, fc', st @ [entry_state entry]))))"
    unfolding w2_def w1_def using tx entry
    by (simp add: apply_surface_def Let_def)
  show ?thesis
  proof (cases "last_committed (surfaces w2 s) = Some t")
    case True
    with assms step have "w' = w2\<lparr>surfaces := (surfaces w2)
                    (s := (surfaces w2 s)\<lparr>first_committed := None, last_committed := None\<rparr>)\<rparr>"
      by simp
    then show ?thesis using p2 by (auto simp: tables_def fun_eq_iff)
  next
    case False
    show ?thesis
    proof (cases "find_next_transaction_for_surface w2 t s")
      case None
      with assms step False show ?thesis by simp
    next
      case (Some r)
      show ?thesis
      proof (cases r)
        case None
        with assms step False Some show ?thesis using p2 by simp
      next
        case (Some n)
        let ?w2' = "w2\<lparr>surfaces := (surfaces w2)(s := (surfaces w2 s)\<lparr>first_committed := Some n\<rparr>)\<rparr>"
        from assms step False \<open>find_next_transaction_for_surface w2 t s = Some r\<close> Some
        have "ensure_next_candidate ?w2' n fc = Some (w', fc')"
          by (auto split: option.splits)
        from ensure_next_candidate_tables[OF this] show ?thesis
          using p2 by (auto simp: tables_def fun_eq_iff)
      qed
    qed
  qed
qed

lemma apply_surfaces_tables:
  "apply_surfaces t ss acc = Some acc' \<Longrightarrow> tables (fst acc') = tables (fst acc)"
proof (induction ss arbitrary: acc)
  case Nil
  then show ?case by simp
next
  case (Cons s ss)
  from Cons.prems obtain acc1 where a1: "apply_surface t s acc = Some acc1"
    and r: "apply_surfaces t ss acc1 = Some acc'"
    by (auto split: option.splits)
  obtain w fc st where acc: "acc = (w, fc, st)" by (cases acc)
  obtain w1 fc1 st1 where acc1: "acc1 = (w1, fc1, st1)" by (cases acc1)
  from apply_surface_tables[OF a1[unfolded acc acc1]] Cons.IH[OF r] show ?case
    by (simp add: acc acc1)
qed

lemma free_tables:
  "meta_wayland_transaction_free w t = Some w' \<Longrightarrow> tables w' = (tables w)(t := None)"
  by (auto simp: meta_wayland_transaction_free_def tables_def fun_eq_iff split: option.splits)

lemma apply_tables:
  assumes "meta_wayland_transaction_apply w t fc = Some (w', fc')"
  shows "tables w' = (tables w)(t := None)"
proof -
  from assms obtain tx surfs w1 fc1 states where
    pass: "apply_surfaces t surfs (log (EvApply t) w, fc, []) = Some (w1, fc1, states)"
    and free: "meta_wayland_transaction_free (sync_child_states surfs states w1) t = Some w'"
    by (auto simp: meta_wayland_transaction_apply_def Let_def split: option.splits)
  have "tables (log (EvApply t) w) = tables w"
    by (simp add: tables_def log_def fun_eq_iff)
  with apply_surfaces_tables[OF pass] have "tables w1 = tables w"
    by simp
  moreover have "tables (sync_child_states surfs states w1) = tables w1"
    by (simp add: tables_def sync_child_states_frame(1) fun_eq_iff)
  ultimately show ?thesis using free_tables[OF free] by simp
qed

lemma maybe_apply_one_tables:
  assumes "meta_wayland_transaction_maybe_apply_one w t fc = Some (w1, fc1)"
  shows "tables w1 \<subseteq>\<^sub>m tables w"
proof (cases "has_unapplied_dependencies w t")
  case None
  with assms show ?thesis by (simp add: meta_wayland_transaction_maybe_apply_one_def)
next
  case (Some b)
  show ?thesis
  proof (cases b)
    case True
    with Some assms show ?thesis by (simp add: meta_wayland_transaction_maybe_apply_one_def)
  next
    case False
    with Some assms have "meta_wayland_transaction_apply w t fc = Some (w1, fc1)"
      by (simp add: meta_wayland_transaction_maybe_apply_one_def)
    from apply_tables[OF this] show ?thesis by (auto simp: map_le_def)
  qed
qed

lemma round_tables:
  assumes "maybe_apply_round w t fc = Some r"
  shows "(\<forall>w'. r = Inl w' \<longrightarrow> tables w' \<subseteq>\<^sub>m tables w) \<and>
         (\<forall>w' t' fc'. r = Inr (w', t', fc') \<longrightarrow> tables w' \<subseteq>\<^sub>m tables w)"
proof -
  from assms obtain w1 fc1 where one: "meta_wayland_transaction_maybe_apply_one w t fc = Some (w1, fc1)"
    by (auto simp: maybe_apply_round_def split: option.splits)
  note le = maybe_apply_one_tables[OF one]
  show ?thesis
  proof (cases fc1)
    case Null
    with assms one show ?thesis by (simp add: maybe_apply_round_def)
  next
    case TRANSACTION_NONE
    with assms one le show ?thesis by (auto simp: maybe_apply_round_def)
  next
    case (Ptr n)
    with assms one obtain nx where nx: "heap w1 n = Some nx"
      and r: "r = Inr (w1\<lparr>heap := (heap w1)(n \<mapsto> nx\<lparr>next_candidate := Null\<rparr>)\<rparr>, n, next_candidate nx)"
      by (auto simp: maybe_apply_round_def split: option.splits)
    from tables_upd_next[OF nx, of Null] le r show ?thesis by simp
  qed
qed

lemma loop_tables:
  assumes "maybe_apply_loop w t fc = Some w'"
  shows "tables w' \<subseteq>\<^sub>m tables w"
proof (rule maybe_apply_loop.raw_induct
    [where P = "\<lambda>w t fc w'. tables w' \<subseteq>\<^sub>m tables w", OF _ assms])
  fix loop :: "world \<Rightarrow> tref \<Rightarrow> candidate \<Rightarrow> world option" and w t fc w'
  assume IH: "\<And>w t fc w'. loop w t fc = Some w' \<Longrightarrow> tables w' \<subseteq>\<^sub>m tables w"
    and eq: "(case maybe_apply_round w t fc of None \<Rightarrow> None | Some (Inl w') \<Rightarrow> Some w'
              | Some (Inr (w', t', fc')) \<Rightarrow> loop w' t' fc') = Some w'"
  from eq obtain r where r: "maybe_apply_round w t fc = Some r"
    by (auto split: option.splits)
  note k = round_tables[OF r]
  show "tables w' \<subseteq>\<^sub>m tables w"
  proof (cases r)
    case (Inl w1)
    with eq r have "w' = w1" by simp
    with k Inl show ?thesis by simp
  next
    case (Inr c)
    obtain w1 t1 fc1 where c: "c = (w1, t1, fc1)" by (cases c)
    with eq r Inr have l: "loop w1 t1 fc1 = Some w'" by simp
    from k Inr c have "tables w1 \<subseteq>\<^sub>m tables w" by simp
    with IH[OF l] show ?thesis by (rule map_le_trans)
  qed
qed

lemma maybe_apply_tables:
  "meta_wayland_transaction_maybe_apply w t = Some w' \<Longrightarrow> tables w' \<subseteq>\<^sub>m tables w"
  unfolding meta_wayland_transaction_maybe_apply_def by (rule loop_tables)

lemma commit_tables:
  assumes tx: "heap w t = Some tx" and d: "distinct (map fst (entries tx))"
    and r: "meta_wayland_transaction_commit w t = Some w'"
  shows "tables w' \<subseteq>\<^sub>m tables w"
proof -
  have "\<exists>w1 b. commit_enqueue w t = Some (w1, b) \<and>
      heap w1 = (heap w)(t \<mapsto> tx\<lparr>committed_sequence := sequence_counter w + 1, node_data := True\<rparr>)"
    unfolding commit_enqueue_eq[OF tx d]
    by (intro exI conjI, rule refl) simp
  then obtain w1 b where e: "commit_enqueue w t = Some (w1, b)"
    and h1: "heap w1 = (heap w)(t \<mapsto> tx\<lparr>committed_sequence := sequence_counter w + 1, node_data := True\<rparr>)"
    by blast
  from h1 tx have t1: "tables w1 = tables w" by (auto simp: tables_def fun_eq_iff)
  from r e have "(if b then meta_wayland_transaction_maybe_apply w1 t else Some w1) = Some w'"
    by (simp add: meta_wayland_transaction_commit_def)
  then show ?thesis
    using maybe_apply_tables[of w1 t w'] t1 by (cases b) auto
qed

text \<open>One round of the merge loop, and the whole loop, on tables that have the invariant.\<close>

lemma entry_merge_into_keeps_ok:
  "entry_ok te \<Longrightarrow> entry_ok (snd (meta_wayland_transaction_entry_merge_into X fe te))"
  by (auto simp: entry_ok_def meta_wayland_transaction_entry_merge_into_def Let_def
      split: option.splits)

lemma entry_merge_into_zero:
  "snd (meta_wayland_transaction_entry_merge_into X entry0 entry0) = entry0"
  by (simp add: meta_wayland_transaction_entry_merge_into_def entry0_def Let_def)

lemma entry_ok_zero: "\<not> entry_ok entry0"
  by (simp add: entry_ok_def entry0_def)

lemma entry_placement_surfaces_zero: "entry_placement_surfaces entry0 = {}"
  by (simp add: entry_placement_surfaces_def entry0_def)

lemma merge_into_step_kinds:
  assumes fe: "entry_ok fe \<or> fe = entry0"
    and tes: "\<forall>s e. map_of tes s = Some e \<longrightarrow> entry_ok e \<or> (e = entry0 \<and> s \<in> A)"
  shows "\<forall>s e. map_of (merge_into_step X (sf, fe) tes) s = Some e \<longrightarrow>
           entry_ok e \<or>
           (e = entry0 \<and> s \<in> A \<union> entry_placement_surfaces fe \<union> {s. (s, entry0) \<in> {(sf, fe)}})"
proof (intro allI impI)
  fix s e
  assume m: "map_of (merge_into_step X (sf, fe) tes) s = Some e"
  show "entry_ok e \<or>
        (e = entry0 \<and> s \<in> A \<union> entry_placement_surfaces fe \<union> {s. (s, entry0) \<in> {(sf, fe)}})"
  proof (cases "s = sf")
    case True
    show ?thesis
    proof (cases "map_of tes sf")
      case None
      with m True have "e = fe" by (simp add: map_of_merge_into_step)
      with fe True show ?thesis by auto
    next
      case (Some te)
      with m True have e: "e = snd (meta_wayland_transaction_entry_merge_into X fe te)"
        by (simp add: map_of_merge_into_step)
      from Some tes have te: "entry_ok te \<or> (te = entry0 \<and> sf \<in> A)" by blast
      show ?thesis
      proof (cases "entry_ok fe \<or> entry_ok te")
        case True
        then show ?thesis
          using e entry_merge_into_ok[of fe X te] entry_merge_into_keeps_ok[of te X fe] by blast
      next
        case False
        with fe te have "fe = entry0" "te = entry0" "sf \<in> A" by auto
        with e \<open>s = sf\<close> show ?thesis by (simp add: entry_merge_into_zero)
      qed
    qed
  next
    case False
    show ?thesis
    proof (cases "map_of tes s")
      case None
      with m False have "e = entry0" "s \<in> entry_placement_surfaces fe"
        by (auto simp: map_of_merge_into_step split: if_splits)
      then show ?thesis by simp
    next
      case (Some e')
      with m False have "e = e'" by (simp add: map_of_merge_into_step)
      with Some tes show ?thesis by auto
    qed
  qed
qed

lemma fold_merge_into_step_kinds:
  assumes "\<forall>(s, e) \<in> set fes. entry_ok e \<or> e = entry0"
    and "\<forall>s e. map_of tes s = Some e \<longrightarrow> entry_ok e \<or> (e = entry0 \<and> s \<in> A)"
  shows "\<forall>s e. map_of (fold (merge_into_step X) fes tes) s = Some e \<longrightarrow>
           entry_ok e \<or>
           (e = entry0 \<and>
            s \<in> A \<union> (\<Union>(s, e) \<in> set fes. entry_placement_surfaces e) \<union>
                {s. (s, entry0) \<in> set fes})"
  using assms
proof (induction fes arbitrary: tes A)
  case Nil
  then show ?case by simp
next
  case (Cons p fes)
  obtain sf fe where p: "p = (sf, fe)" by (cases p)
  from Cons.prems(1) p have ok: "entry_ok fe \<or> fe = entry0"
    and rest: "\<forall>(s, e) \<in> set fes. entry_ok e \<or> e = entry0"
    by auto
  note step = merge_into_step_kinds[where X = X and sf = sf, OF ok Cons.prems(2)]
  from Cons.IH[OF rest step] show ?case
    using p by auto
qed

lemma fold_merge_into_step_keeps_ok:
  "map_of tes s = Some te \<Longrightarrow> entry_ok te \<Longrightarrow>
   \<exists>e. map_of (fold (merge_into_step X) fes tes) s = Some e \<and> entry_ok e"
proof (induction fes arbitrary: tes te)
  case Nil
  then show ?case by simp
next
  case (Cons p fes)
  obtain sf fe where p: "p = (sf, fe)" by (cases p)
  have "\<exists>e. map_of (merge_into_step X p tes) s = Some e \<and> entry_ok e"
    using Cons.prems p
    by (auto simp: map_of_merge_into_step entry_merge_into_keeps_ok)
  then obtain e where "map_of (merge_into_step X p tes) s = Some e" "entry_ok e" by blast
  from Cons.IH[OF this] show ?case by simp
qed

lemma fold_merge_into_step_brings_ok:
  "(s, fe) \<in> set fes \<Longrightarrow> entry_ok fe \<Longrightarrow>
   \<exists>e. map_of (fold (merge_into_step X) fes tes) s = Some e \<and> entry_ok e"
proof (induction fes arbitrary: tes)
  case Nil
  then show ?case by simp
next
  case (Cons p fes)
  show ?case
  proof (cases "p = (s, fe)")
    case True
    have "\<exists>e. map_of (merge_into_step X p tes) s = Some e \<and> entry_ok e"
      using True Cons.prems(2)
      by (auto simp: map_of_merge_into_step entry_merge_into_ok split: option.splits)
    then obtain e where "map_of (merge_into_step X p tes) s = Some e" "entry_ok e" by blast
    from fold_merge_into_step_keeps_ok[OF this] show ?thesis by simp
  next
    case False
    with Cons.prems have "(s, fe) \<in> set fes" by auto
    from Cons.IH[OF this Cons.prems(2)] show ?thesis by simp
  qed
qed

text \<open>The entries of \<open>to\<close> after a merge, when both tables have the invariant.\<close>

lemma merge_entries_kinds:
  assumes df: "distinct (map fst fes)"
    and f: "\<forall>s e. map_of fes s = Some e \<longrightarrow> entry_ok e \<or> e = entry0"
    and t: "\<forall>s e. map_of tes s = Some e \<longrightarrow> entry_ok e \<or> e = entry0"
  shows "\<forall>s e0. (map_of fes s = Some e0 \<or> map_of tes s = Some e0) \<and> entry_ok e0 \<longrightarrow>
           (\<exists>e. map_of (merge_entries X fes tes) s = Some e \<and> entry_ok e)"
    and "\<forall>s e. map_of (merge_entries X fes tes) s = Some e \<longrightarrow>
           entry_ok e \<or>
           (e = entry0 \<and>
            (map_of tes s = Some entry0 \<or>
             map_of tes s = None \<and>
             (map_of fes s = Some entry0 \<or>
              s \<in> (\<Union>(s, e) \<in> set fes. entry_placement_surfaces e))))"
proof -
  show 1: "\<forall>s e0. (map_of fes s = Some e0 \<or> map_of tes s = Some e0) \<and> entry_ok e0 \<longrightarrow>
           (\<exists>e. map_of (merge_entries X fes tes) s = Some e \<and> entry_ok e)"
    unfolding merge_entries_def
    by (auto dest: map_of_SomeD intro: fold_merge_into_step_brings_ok fold_merge_into_step_keeps_ok)
  have fs: "\<forall>(s, e) \<in> set fes. entry_ok e \<or> e = entry0"
    using f df by auto
  have ta: "\<forall>s e. map_of tes s = Some e \<longrightarrow>
              entry_ok e \<or> (e = entry0 \<and> s \<in> {s. map_of tes s = Some entry0})"
    using t by auto
  note k = fold_merge_into_step_kinds[OF fs ta, of X, folded merge_entries_def]
  show "\<forall>s e. map_of (merge_entries X fes tes) s = Some e \<longrightarrow>
           entry_ok e \<or>
           (e = entry0 \<and>
            (map_of tes s = Some entry0 \<or>
             map_of tes s = None \<and>
             (map_of fes s = Some entry0 \<or>
              s \<in> (\<Union>(s, e) \<in> set fes. entry_placement_surfaces e))))"
  proof (intro allI impI)
    fix s e
    assume m: "map_of (merge_entries X fes tes) s = Some e"
    show "entry_ok e \<or>
           (e = entry0 \<and>
            (map_of tes s = Some entry0 \<or>
             map_of tes s = None \<and>
             (map_of fes s = Some entry0 \<or>
              s \<in> (\<Union>(s, e) \<in> set fes. entry_placement_surfaces e))))"
    proof (cases "entry_ok e")
      case True
      then show ?thesis by simp
    next
      case False
      with k m have e0: "e = entry0"
        and s: "s \<in> {s. map_of tes s = Some entry0} \<union>
                  (\<Union>(s, e) \<in> set fes. entry_placement_surfaces e) \<union>
                  {s. (s, entry0) \<in> set fes}"
        by blast+
      show ?thesis
      proof (cases "map_of tes s")
        case None
        from s None have "s \<in> (\<Union>(s, e) \<in> set fes. entry_placement_surfaces e) \<or>
            (s, entry0) \<in> set fes" by auto
        with df have "s \<in> (\<Union>(s, e) \<in> set fes. entry_placement_surfaces e) \<or>
            map_of fes s = Some entry0" by auto
        with e0 None show ?thesis by blast
      next
        case (Some te)
        have "te = entry0"
        proof (rule ccontr)
          assume "te \<noteq> entry0"
          with t Some have "entry_ok te" by blast
          with 1 Some obtain e' where "map_of (merge_entries X fes tes) s = Some e'" "entry_ok e'"
            by blast
          with m False show False by simp
        qed
        with Some e0 show ?thesis by simp
      qed
    qed
  qed
qed

lemma add_subsurface_position_entry:
  assumes "heap w t = Some tx"
  shows "\<exists>w' tx' e. meta_wayland_transaction_add_subsurface_position w t s x y = Some w' \<and>
           heap w' = (heap w)(t \<mapsto> tx') \<and>
           meta_wayland_transaction_get_entry (entries tx') s = Some e \<and>
           has_sub_pos e \<and> entry_x e = x \<and> entry_y e = y \<and>
           (\<forall>s'. s' \<noteq> s \<longrightarrow>
              meta_wayland_transaction_get_entry (entries tx') s' =
              meta_wayland_transaction_get_entry (entries tx) s')"
proof -
  from add_subsurface_position_live[OF assms, of s x y] obtain tx' where
    r: "meta_wayland_transaction_add_subsurface_position w t s x y =
          Some (w\<lparr>heap := (heap w)(t \<mapsto> tx')\<rparr>)"
    and m: "\<forall>s'. map_of (entries tx') s' =
              (if s' = s
               then Some ((snd (meta_wayland_transaction_ensure_entry (entries tx) s))
                            \<lparr>entry_x := x, entry_y := y, has_sub_pos := True\<rparr>)
               else map_of (entries tx) s')"
    by blast
  let ?e = "(snd (meta_wayland_transaction_ensure_entry (entries tx) s))
              \<lparr>entry_x := x, entry_y := y, has_sub_pos := True\<rparr>"
  from m have "meta_wayland_transaction_get_entry (entries tx') s = Some ?e"
    and "\<forall>s'. s' \<noteq> s \<longrightarrow>
              meta_wayland_transaction_get_entry (entries tx') s' =
              meta_wayland_transaction_get_entry (entries tx) s'"
    by (simp_all add: meta_wayland_transaction_get_entry_def)
  with r show ?thesis
    by (intro exI[of _ "w\<lparr>heap := (heap w)(t \<mapsto> tx')\<rparr>"] exI[of _ tx'] exI[of _ ?e]) simp
qed

lemma merge_pending_state_entry:
  assumes "heap w t = Some tx"
  shows "\<exists>w' tx' e. meta_wayland_transaction_merge_pending_state X w t s = Some w' \<and>
           heap w' = (heap w)(t \<mapsto> tx') \<and>
           meta_wayland_transaction_get_entry (entries tx') s = Some e \<and>
           entry_state e \<noteq> None \<and>
           (\<forall>s'. s' \<noteq> s \<longrightarrow>
              meta_wayland_transaction_get_entry (entries tx') s' =
              meta_wayland_transaction_get_entry (entries tx) s')"
proof -
  from merge_pending_state_live[OF assms, of X s] obtain tx' sf' e where
    r: "meta_wayland_transaction_merge_pending_state X w t s =
          Some (w\<lparr>heap := (heap w)(t \<mapsto> tx'), surfaces := sf'\<rparr>)"
    and e: "entry_state e \<noteq> None"
    and m: "\<forall>s'. map_of (entries tx') s' = (if s' = s then Some e else map_of (entries tx) s')"
    by blast
  from m have "meta_wayland_transaction_get_entry (entries tx') s = Some e"
    and "\<forall>s'. s' \<noteq> s \<longrightarrow>
              meta_wayland_transaction_get_entry (entries tx') s' =
              meta_wayland_transaction_get_entry (entries tx) s'"
    by (simp_all add: meta_wayland_transaction_get_entry_def)
  with r e show ?thesis
    by (intro exI[of _ "w\<lparr>heap := (heap w)(t \<mapsto> tx'), surfaces := sf'\<rparr>"] exI[of _ tx'] exI[of _ e])
       simp
qed

lemma entries_inv_live:
  "entries_inv w \<Longrightarrow> heap w t = Some tx \<Longrightarrow>
   \<forall>s e. map_of (entries tx) s = Some e \<longrightarrow> entry_ok e \<or> e = entry0"
  by (auto simp: entries_inv_def meta_wayland_transaction_get_entry_def)

lemma merge_into_entries:
  assumes inv: "world_inv w" and ei: "entries_inv w"
    and f: "heap w from = Some ftx" and t: "heap w t = Some tx" and ne: "from \<noteq> t"
  shows "\<exists>w' tx'. meta_wayland_transaction_merge_into X w from t = Some w' \<and>
           heap w' = (heap w)(t \<mapsto> tx', from := None) \<and>
           (\<forall>s e0. (meta_wayland_transaction_get_entry (entries ftx) s = Some e0 \<or>
                     meta_wayland_transaction_get_entry (entries tx) s = Some e0) \<and>
                    entry_ok e0 \<longrightarrow>
              (\<exists>e. meta_wayland_transaction_get_entry (entries tx') s = Some e \<and> entry_ok e)) \<and>
           (\<forall>s e. meta_wayland_transaction_get_entry (entries tx') s = Some e \<longrightarrow>
              entry_ok e \<or>
              (e = entry0 \<and>
               (meta_wayland_transaction_get_entry (entries tx) s = Some entry0 \<or>
                meta_wayland_transaction_get_entry (entries tx) s = None \<and>
                (meta_wayland_transaction_get_entry (entries ftx) s = Some entry0 \<or>
                 s \<in> (\<Union>(s, e) \<in> set (entries ftx). entry_placement_surfaces e)))))"
proof -
  let ?tx' = "tx\<lparr>entries := merge_entries X (entries ftx) (entries tx)\<rparr>"
  let ?w' = "w\<lparr>committed_queue :=
               (if node_data ftx then remove1 from (committed_queue w) else committed_queue w),
             heap := (heap w)(t \<mapsto> ?tx', from := None)\<rparr>"
  have r: "meta_wayland_transaction_merge_into X w from t = Some ?w'"
    using f t ne by (simp add: merge_into_live)
  note df = world_inv_live(2)[OF inv f]
  note k = merge_entries_kinds[OF df entries_inv_live[OF ei f] entries_inv_live[OF ei t], of X]
  show ?thesis
    using r k
    by (intro exI[of _ ?w'] exI[of _ ?tx'])
       (simp add: meta_wayland_transaction_get_entry_def)
qed

lemma api_step_keeps_entries:
  assumes "api_step X w w'" and "world_inv w" and "entries_inv w"
  shows "entries_inv w'"
  using assms
proof (induction rule: api_step.induct)
  case (step_new w t w')
  then have w': "heap w' = (heap w)(t \<mapsto> transaction0)"
    by (auto simp: meta_wayland_transaction_new_def split: if_splits)
  show ?case
    by (rule entries_inv_changed[OF step_new.prems(2), where t = t])
       (auto simp: w' transaction0_def split: if_splits)
next
  case (step_add_subsurface_position w t tx s x y w')
  from add_subsurface_position_entry[OF step_add_subsurface_position.hyps(1), of s x y]
    step_add_subsurface_position.hyps(3)
  obtain tx' e where h: "heap w' = (heap w)(t \<mapsto> tx')"
    and e: "meta_wayland_transaction_get_entry (entries tx') s = Some e" "has_sub_pos e"
    and o: "\<forall>s'. s' \<noteq> s \<longrightarrow>
              meta_wayland_transaction_get_entry (entries tx') s' =
              meta_wayland_transaction_get_entry (entries tx) s'"
    by auto
  note old = entries_inv_live[OF step_add_subsurface_position.prems(2)
      step_add_subsurface_position.hyps(1)]
  show ?case
  proof (rule entries_inv_changed[OF step_add_subsurface_position.prems(2), where t = t])
    fix n nx assume "heap w' n = Some nx" "n \<noteq> t"
    then show "heap w n = Some nx" by (simp add: h)
  next
    fix tx'' s' e'
    assume a: "heap w' t = Some tx''" "map_of (entries tx'') s' = Some e'"
    then have "tx'' = tx'" by (simp add: h)
    with a e o old show "entry_ok e' \<or> e' = entry0"
      by (cases "s' = s") (auto simp: meta_wayland_transaction_get_entry_def entry_ok_def)
  qed
next
  case (step_merge_pending_state w t tx s w')
  from merge_pending_state_entry[OF step_merge_pending_state.hyps(1), of X s]
    step_merge_pending_state.hyps(3)
  obtain tx' e where h: "heap w' = (heap w)(t \<mapsto> tx')"
    and e: "meta_wayland_transaction_get_entry (entries tx') s = Some e" "entry_state e \<noteq> None"
    and o: "\<forall>s'. s' \<noteq> s \<longrightarrow>
              meta_wayland_transaction_get_entry (entries tx') s' =
              meta_wayland_transaction_get_entry (entries tx) s'"
    by auto
  note old = entries_inv_live[OF step_merge_pending_state.prems(2)
      step_merge_pending_state.hyps(1)]
  show ?case
  proof (rule entries_inv_changed[OF step_merge_pending_state.prems(2), where t = t])
    fix n nx assume "heap w' n = Some nx" "n \<noteq> t"
    then show "heap w n = Some nx" by (simp add: h)
  next
    fix tx'' s' e'
    assume a: "heap w' t = Some tx''" "map_of (entries tx'') s' = Some e'"
    then have "tx'' = tx'" by (simp add: h)
    with a e o old show "entry_ok e' \<or> e' = entry0"
      by (cases "s' = s") (auto simp: meta_wayland_transaction_get_entry_def entry_ok_def)
  qed
next
  case (step_merge_into w "from" ftx to ttx w')
  from merge_into_entries[OF step_merge_into.prems step_merge_into.hyps(1,3,5), of X]
    step_merge_into.hyps(6)
  obtain tx' where h: "heap w' = (heap w)(to \<mapsto> tx', from := None)"
    and k: "\<forall>s e. meta_wayland_transaction_get_entry (entries tx') s = Some e \<longrightarrow>
              entry_ok e \<or>
              (e = entry0 \<and>
               (meta_wayland_transaction_get_entry (entries ttx) s = Some entry0 \<or>
                meta_wayland_transaction_get_entry (entries ttx) s = None \<and>
                (meta_wayland_transaction_get_entry (entries ftx) s = Some entry0 \<or>
                 s \<in> (\<Union>(s, e) \<in> set (entries ftx). entry_placement_surfaces e))))"
    by auto
  show ?case
  proof (rule entries_inv_changed[OF step_merge_into.prems(2), where t = to])
    fix n nx assume "heap w' n = Some nx" "n \<noteq> to"
    then show "heap w n = Some nx" by (auto simp: h split: if_splits)
  next
    fix tx'' s' e'
    assume a: "heap w' to = Some tx''" "map_of (entries tx'') s' = Some e'"
    with step_merge_into.hyps(5) have "tx'' = tx'" by (simp add: h)
    with a k show "entry_ok e' \<or> e' = entry0"
      by (auto simp: meta_wayland_transaction_get_entry_def)
  qed
next
  case (step_free w t tx w')
  from free_tables[OF step_free.hyps(3)] have "tables w' \<subseteq>\<^sub>m tables w"
    by (auto simp: map_le_def)
  with step_free.prems(2) show ?case by (rule entries_inv_le)
next
  case (step_commit w t tx w')
  note d = world_inv_live(2)[OF step_commit.prems(1) step_commit.hyps(1)]
  from commit_tables[OF step_commit.hyps(1) d step_commit.hyps(3)] step_commit.prems(2)
  show ?case by (rule entries_inv_le[rotated])
next
  case (step_maybe_apply t w w')
  from maybe_apply_tables[OF step_maybe_apply.hyps(2)] step_maybe_apply.prems(2)
  show ?case by (rule entries_inv_le[rotated])
qed

lemma api_run_keeps_entries:
  assumes "(api_step X)\<^sup>*\<^sup>* w0 w" and "world_inv w0" and "entries_inv w0"
  shows "world_inv w \<and> entries_inv w"
  using assms
  by (induction rule: rtranclp_induct)
     (auto intro: api_step_keeps_inv api_step_keeps_entries)

lemma placement_built_heap:
  "\<exists>w3. placement_built = Some w3 \<and> heap w3 11 = Some transaction0 \<and>
      heap w3 10 = Some (transaction0\<lparr>entries := [(1, entry0\<lparr>entry_state := Some placement_state\<rparr>)]\<rparr>)"
  by (simp add: placement_built_def placement_world_def initial_world_def
      meta_wayland_transaction_new_def meta_wayland_transaction_merge_pending_state_def
      meta_wayland_transaction_ensure_entry_def meta_wayland_transaction_get_entry_def
      transaction0_def Let_def entry0_def idle_surface_def)

lemma entries_inv_initial_world: "entries_inv (initial_world par tp)"
  by (simp add: entries_inv_def initial_world_def)

lemma world_inv_placement_world: "world_inv placement_world"
  by (simp add: world_inv_def cascade_inv_def queue_ok_def chains_ok_def candidates_ok_def
      trace_matches_def surface_chain_def chain_def placement_world_def initial_world_def
      idle_surface_def)

lemma placement_built_run:
  "\<exists>w3. placement_built = Some w3 \<and> (api_step payload_ops)\<^sup>*\<^sup>* placement_world w3 \<and>
      heap w3 11 = Some transaction0 \<and>
      heap w3 10 = Some (transaction0\<lparr>entries := [(1, entry0\<lparr>entry_state := Some placement_state\<rparr>)]\<rparr>)"
proof -
  from placement_built_heap obtain w3 where w3: "placement_built = Some w3"
    "heap w3 11 = Some transaction0"
    "heap w3 10 = Some (transaction0\<lparr>entries := [(1, entry0\<lparr>entry_state := Some placement_state\<rparr>)]\<rparr>)"
    by blast
  from w3(1) obtain w1 w2 where
    n1: "meta_wayland_transaction_new placement_world 10 = Some w1"
    and m: "meta_wayland_transaction_merge_pending_state payload_ops w1 10 1 = Some w2"
    and n2: "meta_wayland_transaction_new w2 11 = Some w3"
    by (auto simp: placement_built_def split: bind_splits)
  from n1 have h1: "heap w1 10 = Some transaction0"
    by (auto simp: meta_wayland_transaction_new_def split: if_splits)
  have nd: "\<not> node_data transaction0" by (simp add: transaction0_def)
  have s1: "api_step payload_ops placement_world w1" using n1 by (rule step_new)
  have s2: "api_step payload_ops w1 w2" using h1 nd m by (rule step_merge_pending_state)
  have s3: "api_step payload_ops w2 w3" using n2 by (rule step_new)
  from s1 s2 s3 have "(api_step payload_ops)\<^sup>*\<^sup>* placement_world w3" by auto
  with w3 show ?thesis by blast
qed

text \<open>
  Claim C5, amended. Start in any compositor state that satisfies the invariant of the
  queue and in which every entry has a state snapshot or a position override or is a zero
  entry (the compositor without transactions is such a state), and let the compositor
  build, merge, discard, commit and apply transactions in any order. In every state
  reached, every entry of every transaction has a state snapshot or a position override,
  or is a zero entry. On a live transaction of such a state
  \<^verbatim>\<open>meta_wayland_transaction_add_subsurface_position\<close> returns and leaves the entry of
  its surface with the position override it was given, and
  \<^verbatim>\<open>meta_wayland_transaction_merge_pending_state\<close> returns and leaves the entry of its
  surface with a state snapshot; both leave the other entries as they were. Merging
  another live transaction \<open>from\<close> into it returns, frees \<open>from\<close>, and every surface
  whose entry in \<open>from\<close> or in \<open>to\<close> had a snapshot or an override has an entry with a
  snapshot or an override afterwards. An entry of the result with neither field is a zero
  entry, and it was a zero entry of \<open>to\<close> before, or its surface had no entry in \<open>to\<close>
  and either had a zero entry in \<open>from\<close> or is named by a placement operation of a
  snapshot of \<open>from\<close>: entries with neither field come from the registration of
  placement surfaces only.
\<close>

theorem only_placement_entries_lack_both_fields:
  assumes "world_inv w0" and "entries_inv w0" and "(api_step X)\<^sup>*\<^sup>* w0 w"
  shows "entries_inv w \<and>
    (heap w t = Some tx \<longrightarrow>
       (\<exists>w' tx' e. meta_wayland_transaction_add_subsurface_position w t s x y = Some w' \<and>
          heap w' = (heap w)(t \<mapsto> tx') \<and>
          meta_wayland_transaction_get_entry (entries tx') s = Some e \<and>
          has_sub_pos e \<and> entry_x e = x \<and> entry_y e = y \<and>
          (\<forall>s'. s' \<noteq> s \<longrightarrow>
             meta_wayland_transaction_get_entry (entries tx') s' =
             meta_wayland_transaction_get_entry (entries tx) s'))) \<and>
    (heap w t = Some tx \<longrightarrow>
       (\<exists>w' tx' e. meta_wayland_transaction_merge_pending_state X w t s = Some w' \<and>
          heap w' = (heap w)(t \<mapsto> tx') \<and>
          meta_wayland_transaction_get_entry (entries tx') s = Some e \<and>
          entry_state e \<noteq> None \<and>
          (\<forall>s'. s' \<noteq> s \<longrightarrow>
             meta_wayland_transaction_get_entry (entries tx') s' =
             meta_wayland_transaction_get_entry (entries tx) s'))) \<and>
    (heap w from = Some ftx \<and> heap w t = Some tx \<and> from \<noteq> t \<longrightarrow>
       (\<exists>w' tx'. meta_wayland_transaction_merge_into X w from t = Some w' \<and>
          heap w' = (heap w)(t \<mapsto> tx', from := None) \<and>
          (\<forall>s e0. (meta_wayland_transaction_get_entry (entries ftx) s = Some e0 \<or>
                    meta_wayland_transaction_get_entry (entries tx) s = Some e0) \<and>
                   entry_ok e0 \<longrightarrow>
             (\<exists>e. meta_wayland_transaction_get_entry (entries tx') s = Some e \<and> entry_ok e)) \<and>
          (\<forall>s e. meta_wayland_transaction_get_entry (entries tx') s = Some e \<longrightarrow>
             entry_ok e \<or>
             (e = entry0 \<and>
              (meta_wayland_transaction_get_entry (entries tx) s = Some entry0 \<or>
               meta_wayland_transaction_get_entry (entries tx) s = None \<and>
               (meta_wayland_transaction_get_entry (entries ftx) s = Some entry0 \<or>
                s \<in> (\<Union>(s, e) \<in> set (entries ftx). entry_placement_surfaces e)))))))"
proof -
  from api_run_keeps_entries[OF assms(3,1,2)] have inv: "world_inv w" and ei: "entries_inv w"
    by simp_all
  show ?thesis
  proof (intro conjI impI)
    show "entries_inv w" by (rule ei)
  next
    assume "heap w t = Some tx"
    then show "\<exists>w' tx' e. meta_wayland_transaction_add_subsurface_position w t s x y = Some w' \<and>
          heap w' = (heap w)(t \<mapsto> tx') \<and>
          meta_wayland_transaction_get_entry (entries tx') s = Some e \<and>
          has_sub_pos e \<and> entry_x e = x \<and> entry_y e = y \<and>
          (\<forall>s'. s' \<noteq> s \<longrightarrow>
             meta_wayland_transaction_get_entry (entries tx') s' =
             meta_wayland_transaction_get_entry (entries tx) s')"
      by (rule add_subsurface_position_entry)
  next
    assume "heap w t = Some tx"
    then show "\<exists>w' tx' e. meta_wayland_transaction_merge_pending_state X w t s = Some w' \<and>
          heap w' = (heap w)(t \<mapsto> tx') \<and>
          meta_wayland_transaction_get_entry (entries tx') s = Some e \<and>
          entry_state e \<noteq> None \<and>
          (\<forall>s'. s' \<noteq> s \<longrightarrow>
             meta_wayland_transaction_get_entry (entries tx') s' =
             meta_wayland_transaction_get_entry (entries tx) s')"
      by (rule merge_pending_state_entry)
  next
    assume a: "heap w from = Some ftx \<and> heap w t = Some tx \<and> from \<noteq> t"
    then have f: "heap w from = Some ftx" and t: "heap w t = Some tx" and ne: "from \<noteq> t"
      by simp_all
    show "\<exists>w' tx'. meta_wayland_transaction_merge_into X w from t = Some w' \<and>
          heap w' = (heap w)(t \<mapsto> tx', from := None) \<and>
          (\<forall>s e0. (meta_wayland_transaction_get_entry (entries ftx) s = Some e0 \<or>
                    meta_wayland_transaction_get_entry (entries tx) s = Some e0) \<and>
                   entry_ok e0 \<longrightarrow>
             (\<exists>e. meta_wayland_transaction_get_entry (entries tx') s = Some e \<and> entry_ok e)) \<and>
          (\<forall>s e. meta_wayland_transaction_get_entry (entries tx') s = Some e \<longrightarrow>
             entry_ok e \<or>
             (e = entry0 \<and>
              (meta_wayland_transaction_get_entry (entries tx) s = Some entry0 \<or>
               meta_wayland_transaction_get_entry (entries tx) s = None \<and>
               (meta_wayland_transaction_get_entry (entries ftx) s = Some entry0 \<or>
                s \<in> (\<Union>(s, e) \<in> set (entries ftx). entry_placement_surfaces e)))))"
      by (rule merge_into_entries[OF inv ei f t ne])
  qed
qed

text \<open>
  Claim C5 as stated fails: after the merge, transaction 11 has an entry for surface 2
  with neither a state snapshot nor a position override.
\<close>

theorem placement_entry_counterexample:
  "entry_after placement_run 11 2 = Some entry0 \<and>
   entry_state entry0 = None \<and> \<not> has_sub_pos entry0"
  by (simp add: entry_after_def placement_run_def placement_built_def placement_world_def initial_world_def
      meta_wayland_transaction_new_def meta_wayland_transaction_merge_pending_state_def
      meta_wayland_transaction_get_entry_def meta_wayland_transaction_ensure_entry_def
      meta_wayland_transaction_merge_into_def merge_entries_def merge_into_step_def
      meta_wayland_transaction_add_entry_def meta_wayland_transaction_add_placement_surfaces_def
      add_placement_op_def meta_wayland_transaction_free_def transaction0_def entry0_def
      placement_state_def Let_def idle_surface_def)

theorem only_placement_entries_lack_both_fields_witness:
  "world_inv placement_world \<and> entries_inv placement_world \<and>
   (\<exists>w3 w' tx'. (api_step payload_ops)\<^sup>*\<^sup>* placement_world w3 \<and>
      placement_run = Some w' \<and> heap w' 11 = Some tx' \<and>
      (\<exists>e. meta_wayland_transaction_get_entry (entries tx') 1 = Some e \<and> entry_ok e) \<and>
      (\<forall>s e. meta_wayland_transaction_get_entry (entries tx') s = Some e \<longrightarrow>
         entry_ok e \<or> (e = entry0 \<and> (s = 2 \<or> s = 3))))"
proof -
  let ?ftx = "transaction0\<lparr>entries := [(1, entry0\<lparr>entry_state := Some placement_state\<rparr>)]\<rparr>"
  have ei: "entries_inv placement_world"
    by (simp add: entries_inv_def placement_world_def initial_world_def)
  from placement_built_run obtain w3 where w3: "placement_built = Some w3"
    and run: "(api_step payload_ops)\<^sup>*\<^sup>* placement_world w3"
    and h11: "heap w3 11 = Some transaction0" and h10: "heap w3 10 = Some ?ftx"
    by blast
  have p: "(\<Union>(s, e) \<in> set (entries ?ftx). entry_placement_surfaces e) = {2, 3}"
    by (auto simp: entry_placement_surfaces_def placement_surfaces_def placement_state_def
        op_surfaces_def)
  have r: "placement_run = meta_wayland_transaction_merge_into payload_ops w3 10 11"
    by (simp add: placement_run_def w3)
  have a: "heap w3 10 = Some ?ftx \<and> heap w3 11 = Some transaction0 \<and> (10::nat) \<noteq> 11"
    using h10 h11 by simp
  have g: "meta_wayland_transaction_get_entry (entries ?ftx) 1 =
             Some (entry0\<lparr>entry_state := Some placement_state\<rparr>)"
    "entry_ok (entry0\<lparr>entry_state := Some placement_state\<rparr>)"
    by (simp_all add: meta_wayland_transaction_get_entry_def entry_ok_def)
  from only_placement_entries_lack_both_fields
         [OF world_inv_placement_world ei run, of 11 transaction0 0 0 0 10 ?ftx] a
  obtain w' tx' where m: "meta_wayland_transaction_merge_into payload_ops w3 10 11 = Some w'"
    and h: "heap w' = (heap w3)(11 \<mapsto> tx', 10 := None)"
    and ok: "\<forall>s e0. (meta_wayland_transaction_get_entry (entries ?ftx) s = Some e0 \<or>
                    meta_wayland_transaction_get_entry (entries transaction0) s = Some e0) \<and>
                   entry_ok e0 \<longrightarrow>
             (\<exists>e. meta_wayland_transaction_get_entry (entries tx') s = Some e \<and> entry_ok e)"
    and k: "\<forall>s e. meta_wayland_transaction_get_entry (entries tx') s = Some e \<longrightarrow>
             entry_ok e \<or>
             (e = entry0 \<and>
              (meta_wayland_transaction_get_entry (entries transaction0) s = Some entry0 \<or>
               meta_wayland_transaction_get_entry (entries transaction0) s = None \<and>
               (meta_wayland_transaction_get_entry (entries ?ftx) s = Some entry0 \<or>
                s \<in> (\<Union>(s, e) \<in> set (entries ?ftx). entry_placement_surfaces e))))"
    by blast
  from ok g have one: "\<exists>e. meta_wayland_transaction_get_entry (entries tx') 1 = Some e \<and> entry_ok e"
    by blast
  have z: "meta_wayland_transaction_get_entry (entries ?ftx) s \<noteq> Some entry0" for s
    by (simp add: meta_wayland_transaction_get_entry_def entry0_def)
  have "\<forall>s e. meta_wayland_transaction_get_entry (entries tx') s = Some e \<longrightarrow>
         entry_ok e \<or> (e = entry0 \<and> (s = 2 \<or> s = 3))"
  proof (intro allI impI)
    fix s e
    assume "meta_wayland_transaction_get_entry (entries tx') s = Some e"
    with k have "entry_ok e \<or>
             (e = entry0 \<and>
              (meta_wayland_transaction_get_entry (entries transaction0) s = Some entry0 \<or>
               meta_wayland_transaction_get_entry (entries transaction0) s = None \<and>
               (meta_wayland_transaction_get_entry (entries ?ftx) s = Some entry0 \<or>
                s \<in> (\<Union>(s, e) \<in> set (entries ?ftx). entry_placement_surfaces e))))"
      by blast
    then show "entry_ok e \<or> (e = entry0 \<and> (s = 2 \<or> s = 3))"
      unfolding p using z[of s]
      by (auto simp: meta_wayland_transaction_get_entry_def transaction0_def)
  qed
  moreover have "heap w' 11 = Some tx'" by (simp add: h)
  ultimately show ?thesis
    using world_inv_placement_world ei run one m r by auto
qed

end
